theory Spec2Isabelle
  imports Main "HOL-Library.Word"
begin

unbundle bit_operations_syntax

section \<open>Packed board and layout constants\<close>

text \<open>
  The program is \<^verbatim>\<open>src/life_optimized.cpp\<close>: Conway's Game of Life on a board of
  64-bit words, sixteen 4-bit lanes per word, one cell per lane. Bit 0 of a lane is the
  most recently computed state of the cell, bit 1 the state before that.

  The board is a \<^verbatim>\<open>uint64_t *\<close>; it is modelled as a list of 64-bit words. A read or a
  write outside the list is undefined behaviour in the source; here it is the result
  \<open>None\<close>, and every function that touches the board returns an option.
\<close>

type_synonym u64 = "64 word"
type_synonym board = "u64 list"

definition R :: nat where
  "R = 2 ^ 10"

definition C :: nat where
  "C = 2 ^ 11"

definition GROUP_BIT_SIZE :: nat where
  "GROUP_BIT_SIZE = 64"

definition CELLS_PER_GROUP :: nat where
  "CELLS_PER_GROUP = GROUP_BIT_SIZE div 4"

definition GROUPS_PER_ROW :: nat where
  "GROUPS_PER_ROW = (C div CELLS_PER_GROUP) + 1"

definition BOARD_SIZE_GROUPS :: nat where
  "BOARD_SIZE_GROUPS = GROUPS_PER_ROW * (R + 2)"

definition TOP_NYBBLET_BITTMASK :: u64 where
  "TOP_NYBBLET_BITTMASK = 0xCCCCCCCCCCCCCCCC"

definition LOW_BIT_NYBBLE_BITMASK :: u64 where
  "LOW_BIT_NYBBLE_BITMASK = 0x1111111111111111"

text \<open>
  \<open>R\<close> and \<open>GROUPS_PER_ROW\<close> are compile-time constants of the source. The kernel
  functions below take the number of interior rows \<open>nr\<close> and the number of groups per
  row \<open>gpr\<close> as arguments, so that every result holds for every sizing and can be run
  on a small board; the program is the instance \<open>nr = R\<close>, \<open>gpr = GROUPS_PER_ROW\<close>.
  Indices are natural numbers: the source computes them in \<^verbatim>\<open>uint32_t\<close> and
  \<^verbatim>\<open>size_t\<close>, and for the program's constants the largest one is below
  \<open>BOARD_SIZE_GROUPS = 132354\<close>, so nothing wraps, except the subtraction in
  \<open>getColSumsForGroup\<close>, whose wrap-around is an out-of-range read.
\<close>

definition load :: "board \<Rightarrow> nat \<Rightarrow> u64 option" where
  "load board i = (if i < length board then Some (board ! i) else None)"

definition store :: "board \<Rightarrow> nat \<Rightarrow> u64 \<Rightarrow> board option" where
  "store board i v = (if i < length board then Some (board[i := v]) else None)"

section \<open>The helpers of the kernel\<close>

text \<open>
  \<^verbatim>\<open>getColSumsForGroup(board, group_index, group_val_out)\<close> returns the column sums,
  the out-parameter and the board it was handed (a non-const pointer in the source).
  \<^verbatim>\<open>group_index - GROUPS_PER_ROW\<close> is computed in \<^verbatim>\<open>size_t\<close>: below zero it wraps to
  an index beyond any buffer.
\<close>

definition getColSumsForGroup :: "nat \<Rightarrow> board \<Rightarrow> nat \<Rightarrow> (u64 \<times> u64 \<times> board) option" where
  "getColSumsForGroup gpr board group_index =
     (case load board group_index of
        None \<Rightarrow> None
      | Some w \<Rightarrow>
          let group_val_out = w AND LOW_BIT_NYBBLE_BITMASK;
              colSums = group_val_out
          in if group_index < gpr then None
             else
               (case load board (group_index - gpr) of
                  None \<Rightarrow> None
                | Some t \<Rightarrow>
                    let topvals = drop_bit 1 t AND LOW_BIT_NYBBLE_BITMASK
                    in (case load board (group_index + gpr) of
                          None \<Rightarrow> None
                        | Some b \<Rightarrow>
                            let botvals = b AND LOW_BIT_NYBBLE_BITMASK
                            in Some (colSums + (topvals + botvals), group_val_out, board))))"

definition neighborSumToStateBit :: "u64 \<Rightarrow> u64 \<Rightarrow> u64" where
  "neighborSumToStateBit sum_neighbors group_value =
     (let s1 = sum_neighbors - group_value;
          s2 = s1 OR group_value;
          s3 = s2 XOR TOP_NYBBLET_BITTMASK;
          s4 = s3 AND drop_bit 2 s3;
          s5 = s4 AND drop_bit 1 s4
      in s5 AND LOW_BIT_NYBBLE_BITMASK)"

text \<open>The three references of \<^verbatim>\<open>moveColSumsDownPipeline\<close>, after the call.\<close>

definition moveColSumsDownPipeline :: "u64 \<Rightarrow> u64 \<Rightarrow> u64 \<Rightarrow> u64 \<times> u64 \<times> u64" where
  "moveColSumsDownPipeline prev_col_sum curr_col_sums next_col_sums =
     (curr_col_sums, next_col_sums, next_col_sums)"

definition updateBoardIndex :: "board \<Rightarrow> nat \<Rightarrow> u64 \<Rightarrow> u64 \<Rightarrow> board option" where
  "updateBoardIndex board board_index new_state_bit_values prev_board_state =
     (let prev_state_shifted = push_bit 1 (prev_board_state AND LOW_BIT_NYBBLE_BITMASK);
          prev_state_shifted' =
            prev_state_shifted OR (new_state_bit_values AND LOW_BIT_NYBBLE_BITMASK)
      in store board board_index prev_state_shifted')"

definition createLeftNeighborsFromColSums :: "u64 \<Rightarrow> u64 \<Rightarrow> u64" where
  "createLeftNeighborsFromColSums curr_col_sums prev_col_sum =
     (let left_neighbors = drop_bit 4 curr_col_sums;
          prev_carry_cell = push_bit 60 prev_col_sum
      in left_neighbors OR prev_carry_cell)"

definition createRightNeighborsFromColSums :: "u64 \<Rightarrow> u64 \<Rightarrow> u64" where
  "createRightNeighborsFromColSums curr_col_sums next_col_sums =
     (let right_neighbors = push_bit 4 curr_col_sums;
          next_carry_cell = drop_bit 60 next_col_sums;
          out = right_neighbors OR next_carry_cell
      in out)"

section \<open>Row driver and generation driver\<close>

text \<open>
  The loop of \<^verbatim>\<open>runRow\<close>, \<^verbatim>\<open>for (group = 1; group < GROUPS_PER_ROW; group++)\<close>, with
  the loop variable (\<open>grp\<close> for the source's \<^verbatim>\<open>group\<close>) and the locals that live across
  iterations as arguments. Line 72 of
  the source, \<^verbatim>\<open>curr_col_sums + left + right)\<close>, has a stray parenthesis; the sum is
  what is modelled.
\<close>

function runRow_loop ::
  "nat \<Rightarrow> nat \<Rightarrow> nat \<Rightarrow> u64 \<Rightarrow> u64 \<Rightarrow> u64 \<Rightarrow> u64 \<Rightarrow> board \<Rightarrow> board option" where
  "runRow_loop gpr row_start_index grp prev_col_sum curr_col_sums next_col_sums
       next_group_vals board =
     (if grp < gpr then
        (case moveColSumsDownPipeline prev_col_sum curr_col_sums next_col_sums of
           (prev_col_sum', curr_col_sums', next_col_sums') \<Rightarrow>
             let curr_group_vals = next_group_vals
             in (case getColSumsForGroup gpr board (row_start_index + grp) of
                   None \<Rightarrow> None
                 | Some (next_col_sums'', next_group_vals', board') \<Rightarrow>
                     let left = createLeftNeighborsFromColSums curr_col_sums' prev_col_sum';
                         right = createRightNeighborsFromColSums curr_col_sums' next_col_sums'';
                         current_neighbors = curr_col_sums' + left + right;
                         new_state = neighborSumToStateBit current_neighbors curr_group_vals
                     in (case updateBoardIndex board' (row_start_index + grp - 1)
                                new_state curr_group_vals of
                           None \<Rightarrow> None
                         | Some board'' \<Rightarrow>
                             runRow_loop gpr row_start_index (grp + 1) prev_col_sum'
                               curr_col_sums' next_col_sums'' next_group_vals' board'')))
      else Some board)"
  by pat_completeness auto
termination
  by (relation "measure (\<lambda>(gpr, rsi, grp, rest). gpr - grp)") auto

definition runRow :: "nat \<Rightarrow> board \<Rightarrow> nat \<Rightarrow> board option" where
  "runRow gpr board row =
     (let row_start_index = row * gpr
      in (case getColSumsForGroup gpr board row_start_index of
            None \<Rightarrow> None
          | Some (next_col_sums, next_group_vals, board') \<Rightarrow>
              runRow_loop gpr row_start_index 1 0 0 next_col_sums next_group_vals board'))"

text \<open>
  \<^verbatim>\<open>advance\<close>: the loop \<^verbatim>\<open>for (row = 1; row < R + 1; row++) runRow(board, row)\<close>, run
  sequentially in increasing row order.
\<close>

function advance_loop :: "nat \<Rightarrow> nat \<Rightarrow> nat \<Rightarrow> board \<Rightarrow> board option" where
  "advance_loop nr gpr row board =
     (if row < nr + 1 then
        (case runRow gpr board row of
           None \<Rightarrow> None
         | Some board' \<Rightarrow> advance_loop nr gpr (row + 1) board')
      else Some board)"
  by pat_completeness auto
termination
  by (relation "measure (\<lambda>(nr, gpr, row, board). nr + 1 - row)") auto

definition advance :: "nat \<Rightarrow> nat \<Rightarrow> board \<Rightarrow> board option" where
  "advance nr gpr board = advance_loop nr gpr 1 board"

text \<open>The loop of \<^verbatim>\<open>main\<close> that calls \<^verbatim>\<open>advance\<close> \<open>NUM_REPS\<close> times.\<close>

fun advance_reps :: "nat \<Rightarrow> nat \<Rightarrow> nat \<Rightarrow> board \<Rightarrow> board option" where
  "advance_reps nr gpr 0 board = Some board"
| "advance_reps nr gpr (Suc n) board =
     (case advance nr gpr board of
        None \<Rightarrow> None
      | Some board' \<Rightarrow> advance_reps nr gpr n board')"

section \<open>The parallel loop\<close>

text \<open>
  \<^verbatim>\<open>advance\<close> carries \<^verbatim>\<open>#pragma omp parallel for\<close>: compiled with OpenMP, the calls
  \<^verbatim>\<open>runRow(board, row)\<close> of one step are handed to a team of threads, with no order
  among them and no synchronisation before the end of the loop. \<open>advance_schedule\<close>
  runs the calls one after the other, each to its end, in the order of a given list of
  rows: these are some of the executions the pragma admits (a thread that owns the rows
  from 513 on runs row 513 while another thread is still far from row 512). The
  sequential loop is the schedule \<open>[1..<nr + 1]\<close>.
\<close>

fun advance_schedule :: "nat \<Rightarrow> nat list \<Rightarrow> board \<Rightarrow> board option" where
  "advance_schedule gpr [] board = Some board"
| "advance_schedule gpr (row # rows) board =
     (case runRow gpr board row of
        None \<Rightarrow> None
      | Some board' \<Rightarrow> advance_schedule gpr rows board')"

text \<open>
  Several steps, each with its own schedule: the loop of \<^verbatim>\<open>main\<close> that calls
  \<^verbatim>\<open>advance\<close>, the end of each parallel loop being a barrier. A schedule need not
  hold every row: a list of schedules that ends with a part of a step describes the
  board in the middle of that step.
\<close>

fun advance_steps :: "nat \<Rightarrow> nat list list \<Rightarrow> board \<Rightarrow> board option" where
  "advance_steps gpr [] board = Some board"
| "advance_steps gpr (rows # scheds) board =
     (case advance_schedule gpr rows board of
        None \<Rightarrow> None
      | Some board' \<Rightarrow> advance_steps gpr scheds board')"

section \<open>The initial board\<close>

text \<open>
  The part of \<^verbatim>\<open>main\<close> that builds the board: \<^verbatim>\<open>srand(0)\<close>, \<^verbatim>\<open>calloc\<close> of
  \<open>BOARD_SIZE_GROUPS\<close> zero words (taken to succeed), and three nested loops that fill
  the groups \<open>0 \<dots> GROUPS_PER_ROW - 2\<close> of the rows \<open>1 \<dots> R\<close>, sixteen cells per group,
  each cell \<^verbatim>\<open>(rand() % 2) == 0\<close>. The C library's generator is not part of the
  repository: \<open>rnd k\<close> is the value of call number \<open>k\<close> of \<^verbatim>\<open>rand()\<close> after
  \<^verbatim>\<open>srand(0)\<close>, and the loops thread the number of calls made so far. \<open>argv\<close> is the
  argument vector, \<^verbatim>\<open>argc\<close> its length; \<^verbatim>\<open>main\<close> converts \<^verbatim>\<open>argv[1]\<close> and \<^verbatim>\<open>argv[2]\<close>
  with \<^verbatim>\<open>atoi\<close> before it builds the board and uses neither value while building it.
  With another number of arguments it prints the usage line and builds no board.
  \<^verbatim>\<open>GROUPS_PER_ROW - 1\<close> is unsigned in the source; it is the natural number
  \<open>gpr - 1\<close> here, the same for \<open>1 \<le> gpr\<close>.
\<close>

function init_cells :: "(nat \<Rightarrow> nat) \<Rightarrow> nat \<Rightarrow> nat \<Rightarrow> u64 \<Rightarrow> u64 \<times> nat" where
  "init_cells rnd cell k groupValue =
     (if cell < CELLS_PER_GROUP then
        init_cells rnd (cell + 1) (k + 1) (push_bit 4 groupValue OR of_bool (rnd k mod 2 = 0))
      else (groupValue, k))"
  by pat_completeness auto
termination
  by (relation "measure (\<lambda>(rnd, cell, k, groupValue). CELLS_PER_GROUP - cell)") auto

function init_cols ::
  "(nat \<Rightarrow> nat) \<Rightarrow> nat \<Rightarrow> nat \<Rightarrow> nat \<Rightarrow> nat \<Rightarrow> board \<Rightarrow> (board \<times> nat) option" where
  "init_cols rnd gpr rowStartIndex col k board =
     (if col < gpr - 1 then
        (let groupIndex = rowStartIndex + col
         in (case init_cells rnd 0 k 0 of
               (groupValue, k') \<Rightarrow>
                 (case store board groupIndex groupValue of
                    None \<Rightarrow> None
                  | Some board' \<Rightarrow> init_cols rnd gpr rowStartIndex (col + 1) k' board')))
      else Some (board, k))"
  by pat_completeness auto
termination
  by (relation "measure (\<lambda>(rnd, gpr, rsi, col, k, board). gpr - 1 - col)") auto

function init_rows ::
  "(nat \<Rightarrow> nat) \<Rightarrow> nat \<Rightarrow> nat \<Rightarrow> nat \<Rightarrow> nat \<Rightarrow> board \<Rightarrow> (board \<times> nat) option" where
  "init_rows rnd nr gpr row k board =
     (if row < nr + 1 then
        (let rowStartIndex = row * gpr
         in (case init_cols rnd gpr rowStartIndex 0 k board of
               None \<Rightarrow> None
             | Some (board', k') \<Rightarrow> init_rows rnd nr gpr (row + 1) k' board'))
      else Some (board, k))"
  by pat_completeness auto
termination
  by (relation "measure (\<lambda>(rnd, nr, gpr, row, k, board). nr + 1 - row)") auto

declare init_cells.simps [simp del] init_cols.simps [simp del] init_rows.simps [simp del]

definition main_init :: "(nat \<Rightarrow> nat) \<Rightarrow> nat \<Rightarrow> nat \<Rightarrow> string list \<Rightarrow> board option" where
  "main_init rnd nr gpr argv =
     (if length argv = 3 then
        (case init_rows rnd nr gpr 1 0 (replicate (gpr * (nr + 2)) 0) of
           None \<Rightarrow> None
         | Some (board, k) \<Rightarrow> Some board)
      else None)"

section \<open>Lanes\<close>

text \<open>
  Lane \<open>j\<close> of a word is the 4-bit value in bits \<open>4 j \<dots> 4 j + 3\<close>, as a natural number;
  a word has the lanes \<open>0 \<dots> 15\<close>. \<open>pack f\<close> is the word whose lane \<open>j\<close> holds \<open>f j\<close>.
\<close>

definition lane :: "nat \<Rightarrow> u64 \<Rightarrow> nat" where
  "lane j w = unat (take_bit 4 (drop_bit (4 * j) w))"

definition pack :: "(nat \<Rightarrow> nat) \<Rightarrow> u64" where
  "pack f = horner_sum of_bool 2 (map (\<lambda>n. bit (f (n div 4)) (n mod 4)) [0..<64])"

section \<open>What a row and a step compute\<close>

text \<open>
  Closed forms of the loops, used in the proofs. \<open>colsums gpr b i\<close> is the column-sum
  word \<open>getColSumsForGroup\<close> computes for group \<open>i\<close> of the board \<open>b\<close>, and
  \<open>new_group gpr b rsi g\<close> the word \<open>runRow\<close> stores for group \<open>g\<close> of the row that
  starts at \<open>rsi\<close>, both read off the board as it is when the row starts.
  \<open>row_result gpr b rsi k\<close> is that board with the first \<open>k\<close> groups of the row
  replaced, \<open>rows_done gpr b k\<close> the board after the rows \<open>1 \<dots> k\<close>, and
  \<open>generations nr gpr n b\<close> the board after \<open>n\<close> steps. Lemmas \<open>runRow_Some\<close>,
  \<open>advance_Some\<close> and \<open>advance_reps_Some\<close> below prove that the loops return exactly
  these boards.
\<close>

definition colsums :: "nat \<Rightarrow> board \<Rightarrow> nat \<Rightarrow> u64" where
  "colsums gpr b i =
     (b ! i AND LOW_BIT_NYBBLE_BITMASK) +
       ((drop_bit 1 (b ! (i - gpr)) AND LOW_BIT_NYBBLE_BITMASK) +
        (b ! (i + gpr) AND LOW_BIT_NYBBLE_BITMASK))"

definition next_state :: "u64 \<Rightarrow> u64 \<Rightarrow> u64 \<Rightarrow> u64 \<Rightarrow> u64" where
  "next_state prv cur nxt self =
     neighborSumToStateBit
       (cur + createLeftNeighborsFromColSums cur prv
             + createRightNeighborsFromColSums cur nxt) self"

definition new_group :: "nat \<Rightarrow> board \<Rightarrow> nat \<Rightarrow> nat \<Rightarrow> u64" where
  "new_group gpr b rsi g =
     (let self = b ! (rsi + g) AND LOW_BIT_NYBBLE_BITMASK;
          prv = (if g = 0 then 0 else colsums gpr b (rsi + g - 1));
          cur = colsums gpr b (rsi + g);
          nxt = colsums gpr b (rsi + g + 1)
      in push_bit 1 (self AND LOW_BIT_NYBBLE_BITMASK)
           OR (next_state prv cur nxt self AND LOW_BIT_NYBBLE_BITMASK))"

definition row_result :: "nat \<Rightarrow> board \<Rightarrow> nat \<Rightarrow> nat \<Rightarrow> board" where
  "row_result gpr b rsi k =
     map (\<lambda>i. if rsi \<le> i \<and> i < rsi + k then new_group gpr b rsi (i - rsi) else b ! i)
       [0..<length b]"

fun rows_done :: "nat \<Rightarrow> board \<Rightarrow> nat \<Rightarrow> board" where
  "rows_done gpr b 0 = b"
| "rows_done gpr b (Suc k) = row_result gpr (rows_done gpr b k) (Suc k * gpr) (gpr - 1)"

fun generations :: "nat \<Rightarrow> nat \<Rightarrow> nat \<Rightarrow> board \<Rightarrow> board" where
  "generations nr gpr 0 b = b"
| "generations nr gpr (Suc n) b = generations nr gpr n (rows_done gpr b nr)"

section \<open>Borders and lane invariants\<close>

text \<open>
  Index \<open>i\<close> of the buffer is a border index if it lies in the top border row, in the
  bottom border row, or is the trailing padding group of its row.
\<close>

definition is_border :: "nat \<Rightarrow> nat \<Rightarrow> nat \<Rightarrow> bool" where
  "is_border nr gpr i \<longleftrightarrow> i < gpr \<or> (nr + 1) * gpr \<le> i \<or> i mod gpr = gpr - 1"

definition border_dead :: "nat \<Rightarrow> nat \<Rightarrow> board \<Rightarrow> bool" where
  "border_dead nr gpr b \<longleftrightarrow> (\<forall>i\<in>set [0..<length b]. is_border nr gpr i \<longrightarrow> b ! i = 0)"

definition lanes_ok :: "board \<Rightarrow> bool" where
  "lanes_ok b \<longleftrightarrow> (\<forall>w\<in>set b. w AND TOP_NYBBLET_BITTMASK = 0)"

definition low_only :: "u64 \<Rightarrow> bool" where
  "low_only w \<longleftrightarrow> w AND LOW_BIT_NYBBLE_BITMASK = w"

definition init_inv :: "nat \<Rightarrow> nat \<Rightarrow> board \<Rightarrow> bool" where
  "init_inv nr gpr b \<longleftrightarrow>
     length b = gpr * (nr + 2) \<and> list_all low_only b \<and> border_dead nr gpr b"

section \<open>Column sums of the current generation\<close>

text \<open>
  \<open>icolsums\<close> is \<open>colsums\<close> with bit 0 of the row above in place of its bit 1: the
  column sums of the generation the step starts from. \<open>lcell gpr b r g j\<close> is the
  current state of the cell in lane \<open>j\<close> of group \<open>g\<close> of row \<open>r\<close>, and \<open>lcolcount\<close>
  the number of live cells among it, the cell above and the cell below.
\<close>

definition icolsums :: "nat \<Rightarrow> board \<Rightarrow> nat \<Rightarrow> u64" where
  "icolsums gpr b i =
     (b ! i AND LOW_BIT_NYBBLE_BITMASK) +
       ((b ! (i - gpr) AND LOW_BIT_NYBBLE_BITMASK) + (b ! (i + gpr) AND LOW_BIT_NYBBLE_BITMASK))"

definition ideal_group :: "nat \<Rightarrow> board \<Rightarrow> nat \<Rightarrow> nat \<Rightarrow> u64" where
  "ideal_group gpr b rsi g =
     (let self = b ! (rsi + g) AND LOW_BIT_NYBBLE_BITMASK;
          prv = (if g = 0 then 0 else icolsums gpr b (rsi + g - 1));
          cur = icolsums gpr b (rsi + g);
          nxt = icolsums gpr b (rsi + g + 1)
      in push_bit 1 (self AND LOW_BIT_NYBBLE_BITMASK)
           OR (next_state prv cur nxt self AND LOW_BIT_NYBBLE_BITMASK))"

definition lcell :: "nat \<Rightarrow> board \<Rightarrow> nat \<Rightarrow> nat \<Rightarrow> nat \<Rightarrow> bool" where
  "lcell gpr b r g j = bit (b ! (r * gpr + g)) (4 * j)"

definition lcolcount :: "nat \<Rightarrow> board \<Rightarrow> nat \<Rightarrow> nat \<Rightarrow> nat \<Rightarrow> nat" where
  "lcolcount gpr b r g j =
     of_bool (lcell gpr b r g j) + (of_bool (lcell gpr b (r - 1) g j) + of_bool (lcell gpr b (r + 1) g j))"

section \<open>The reference simulation\<close>

text \<open>
  The reference of the specification: a grid of booleans, \<open>nr\<close> rows of
  \<open>16 (gpr - 1)\<close> cells; one generation builds a new grid from the old one (the
  double buffer), cell by cell, by the textbook rule: a cell is alive in the next
  generation iff it has three live neighbours, or is alive and has two. A neighbour
  outside the grid is dead.

  \<open>grid_of\<close> reads the grid off a board: the cell in column \<open>c\<close> of board row \<open>r\<close> is
  bit 0 of lane \<open>15 - c mod 16\<close> of group \<open>c div 16\<close>, the leftmost cell of a group being
  in its most significant lane, as \<^verbatim>\<open>main\<close> fills and \<^verbatim>\<open>print_board\<close> prints them.
\<close>

type_synonym grid = "bool list list"

definition life_rule :: "bool \<Rightarrow> nat \<Rightarrow> bool" where
  "life_rule alive n \<longleftrightarrow> n = 3 \<or> (alive \<and> n = 2)"

definition alive_at :: "grid \<Rightarrow> int \<Rightarrow> int \<Rightarrow> bool" where
  "alive_at g r c \<longleftrightarrow>
     0 \<le> r \<and> r < int (length g) \<and> 0 \<le> c \<and> c < int (length (g ! nat r)) \<and> g ! nat r ! nat c"

definition live_neighbours :: "grid \<Rightarrow> int \<Rightarrow> int \<Rightarrow> nat" where
  "live_neighbours g r c =
     length (filter (\<lambda>(dr, dc). alive_at g (r + dr) (c + dc))
       [(-1, -1), (-1, 0), (-1, 1), (0, -1), (0, 1), (1, -1), (1, 0), (1, 1)])"

definition reference_step :: "grid \<Rightarrow> grid" where
  "reference_step g =
     map (\<lambda>r. map (\<lambda>c. life_rule (g ! r ! c) (live_neighbours g (int r) (int c)))
                 [0..<length (g ! r)])
       [0..<length g]"

definition alive_cell :: "nat \<Rightarrow> board \<Rightarrow> nat \<Rightarrow> nat \<Rightarrow> bool" where
  "alive_cell gpr b r c = bit (b ! (r * gpr + c div 16)) (4 * (15 - c mod 16))"

definition grid_of :: "nat \<Rightarrow> nat \<Rightarrow> board \<Rightarrow> grid" where
  "grid_of nr gpr b =
     map (\<lambda>r. map (\<lambda>c. alive_cell gpr b (r + 1) c) [0..<16 * (gpr - 1)]) [0..<nr]"

definition colcount :: "nat \<Rightarrow> board \<Rightarrow> nat \<Rightarrow> nat \<Rightarrow> nat" where
  "colcount gpr b r c =
     of_bool (alive_cell gpr b r c) + (of_bool (alive_cell gpr b (r - 1) c) + of_bool (alive_cell gpr b (r + 1) c))"

section \<open>Lane arithmetic\<close>

lemma bit_LOW: "bit LOW_BIT_NYBBLE_BITMASK n \<longleftrightarrow> n < 64 \<and> n mod 4 = 0"
proof (cases "n < 64")
  case False
  then show ?thesis by (auto dest: bit_imp_le_length)
next
  case True
  have "n \<in> {..<64}" using True by simp
  then show ?thesis unfolding LOW_BIT_NYBBLE_BITMASK_def
    apply (simp only: lessThan_nat_numeral lessThan_Suc pred_numeral_simps Num.BitM.simps lessThan_0 insert_iff empty_iff)
    apply (simp del: bit_numeral_word_iff)
    by (elim disjE; simp)
qed

lemma bit_TOP: "bit TOP_NYBBLET_BITTMASK n \<longleftrightarrow> n < 64 \<and> 2 \<le> n mod 4"
proof (cases "n < 64")
  case False
  then show ?thesis by (auto dest: bit_imp_le_length)
next
  case True
  have "n \<in> {..<64}" using True by simp
  then show ?thesis unfolding TOP_NYBBLET_BITTMASK_def
    apply (simp only: lessThan_nat_numeral lessThan_Suc pred_numeral_simps Num.BitM.simps lessThan_0 insert_iff empty_iff)
    apply (simp del: bit_numeral_word_iff)
    by (elim disjE; simp)
qed

lemma lane_div_mod: "lane j w = unat w div 16 ^ j mod 16"
proof -
  have "lane j w = take_bit 4 (drop_bit (4 * j) (unat w))"
    by (simp only: lane_def unat_drop_bit_eq unsigned_take_bit_eq)
  also have "\<dots> = unat w div 2 ^ (4 * j) mod 2 ^ 4"
    by (simp only: take_bit_eq_mod drop_bit_eq_div)
  also have "\<dots> = unat w div 16 ^ j mod 16"
    by (simp add: power_mult)
  finally show ?thesis .
qed

lemma bit_lane: "bit (lane j w) k \<longleftrightarrow> k < 4 \<and> bit w (4 * j + k)"
  by (auto simp add: lane_def bit_simps bit_unsigned_iff ac_simps dest: bit_imp_le_length)

lemma lane_less: "lane j w < 16"
  by (simp add: lane_div_mod)

lemma nocarry_mod:
  fixes x y :: nat
  assumes "\<And>i. i < n \<Longrightarrow> x div 16 ^ i mod 16 + y div 16 ^ i mod 16 < 16"
  shows "x mod 16 ^ n + y mod 16 ^ n < 16 ^ n"
  using assms
proof (induction n)
  case 0
  then show ?case by simp
next
  case (Suc n)
  have x: "x mod 16 ^ Suc n = 16 ^ n * (x div 16 ^ n mod 16) + x mod 16 ^ n"
    unfolding power_Suc2 by (rule mod_mult2_eq)
  have y: "y mod 16 ^ Suc n = 16 ^ n * (y div 16 ^ n mod 16) + y mod 16 ^ n"
    unfolding power_Suc2 by (rule mod_mult2_eq)
  have ih: "x mod 16 ^ n + y mod 16 ^ n < 16 ^ n"
    using Suc by simp
  have d: "x div 16 ^ n mod 16 + y div 16 ^ n mod 16 \<le> 15"
    using Suc.prems [of n] by simp
  have "16 ^ n * (x div 16 ^ n mod 16 + y div 16 ^ n mod 16) \<le> 16 ^ n * (15::nat)"
    using d by (rule mult_le_mono2)
  then have "16 ^ n * (x div 16 ^ n mod 16) + 16 ^ n * (y div 16 ^ n mod 16) \<le> 16 ^ n * (15::nat)"
    by (simp only: distrib_left)
  with ih have "(16 ^ n * (x div 16 ^ n mod 16) + x mod 16 ^ n) +
      (16 ^ n * (y div 16 ^ n mod 16) + y mod 16 ^ n) < 16 ^ n * 15 + (16 ^ n :: nat)"
    by linarith
  then show ?case
    unfolding x y by simp
qed

lemma nocarry_digit:
  fixes x y :: nat
  assumes "\<And>i. i \<le> j \<Longrightarrow> x div 16 ^ i mod 16 + y div 16 ^ i mod 16 < 16"
  shows "(x + y) div 16 ^ j mod 16 = x div 16 ^ j mod 16 + y div 16 ^ j mod 16"
proof -
  have "x mod 16 ^ j + y mod 16 ^ j < 16 ^ j"
    by (rule nocarry_mod) (simp add: assms)
  then have "(x mod 16 ^ j + y mod 16 ^ j) div 16 ^ j = 0"
    by (rule div_less)
  then have "(x + y) div 16 ^ j = x div 16 ^ j + y div 16 ^ j"
    by (subst div_add1_eq) (simp only: add_0_right)
  then have "(x + y) div 16 ^ j mod 16 = (x div 16 ^ j mod 16 + y div 16 ^ j mod 16) mod 16"
    by (simp only: mod_add_eq)
  also have "\<dots> = x div 16 ^ j mod 16 + y div 16 ^ j mod 16"
    using assms [of j] by simp
  finally show ?thesis .
qed

lemma lane_add:
  assumes "\<And>i. i < 16 \<Longrightarrow> lane i a + lane i b < 16"
  shows "lane j (a + b) = lane j a + lane j b"
proof -
  have big: "lane i w = 0" if "16 \<le> i" for i and w :: u64
  proof -
    have "unat w < 16 ^ 16"
      using unsigned_less [of w, where 'a = nat] by simp
    also have "(16::nat) ^ 16 \<le> 16 ^ i"
      using that by (intro power_increasing) simp_all
    finally show ?thesis
      by (simp add: lane_div_mod)
  qed
  have all: "lane i a + lane i b < 16" for i
    using assms [of i] big [of i a] big [of i b] by (cases "i < 16") simp_all
  have "unat a mod 16 ^ 16 + unat b mod 16 ^ 16 < 16 ^ 16"
    by (rule nocarry_mod) (use assms in \<open>simp add: lane_div_mod\<close>)
  moreover have "unat a < 16 ^ 16" "unat b < 16 ^ 16"
    using unsigned_less [of a, where 'a = nat] unsigned_less [of b, where 'a = nat] by simp_all
  ultimately have "unat a + unat b < 2 ^ 64"
    by simp
  then have "unat (a + b) = unat a + unat b"
    by (simp add: unat_add_lem [THEN iffD1])
  then show ?thesis
    using all by (simp add: lane_div_mod nocarry_digit)
qed

lemma bit_pack: "bit (pack f) n \<longleftrightarrow> n < 64 \<and> bit (f (n div 4)) (n mod 4)"
  by (auto simp add: pack_def bit_horner_sum_bit_word_iff)

lemma lane_pack: "lane j (pack f) = (if j < 16 then take_bit 4 (f j) else 0)"
  by (rule bit_eqI) (auto simp add: bit_lane bit_pack bit_simps)

lemma lane_ext:
  assumes "\<And>j. j < 16 \<Longrightarrow> lane j a = lane j b"
  shows "a = b"
proof (rule bit_word_eqI)
  fix n assume "n < LENGTH(64)"
  then have j: "n div 4 < 16" by simp
  have "bit a n = bit (lane (n div 4) a) (n mod 4)"
    by (simp add: bit_lane)
  also have "\<dots> = bit (lane (n div 4) b) (n mod 4)"
    using assms [OF j] by simp
  also have "\<dots> = bit b n"
    by (simp add: bit_lane)
  finally show "bit a n = bit b n" .
qed

lemma lane_ge16: "16 \<le> j \<Longrightarrow> lane j w = 0"
  by (rule bit_eqI) (auto simp add: bit_lane dest: bit_imp_le_length)

lemma lane_and_LOW: "lane j (w AND LOW_BIT_NYBBLE_BITMASK) = of_bool (bit w (4 * j))"
  by (rule bit_eqI) (auto simp add: bit_lane bit_simps bit_LOW dest: bit_imp_le_length)

lemma lane_drop1_and_LOW:
  "lane j (drop_bit 1 w AND LOW_BIT_NYBBLE_BITMASK) = of_bool (bit w (4 * j + 1))"
  by (rule bit_eqI) (auto simp add: bit_lane bit_simps bit_LOW ac_simps dest: bit_imp_le_length)

lemma lane_createLeft:
  "lane j (createLeftNeighborsFromColSums c p) =
     (if j < 15 then lane (j + 1) c else if j = 15 then lane 0 p else 0)"
  by (rule bit_eqI)
    (auto simp add: createLeftNeighborsFromColSums_def bit_lane bit_simps ac_simps
       dest: bit_imp_le_length)

lemma lane_createRight_0: "lane 0 (createRightNeighborsFromColSums c n) = lane 15 n"
  by (rule bit_eqI)
    (auto simp add: createRightNeighborsFromColSums_def bit_lane bit_simps ac_simps
      dest: bit_imp_le_length)

lemma lane_createRight_Suc:
  "lane (Suc i) (createRightNeighborsFromColSums c n) = (if i < 15 then lane i c else 0)"
  by (rule bit_eqI)
    (auto simp add: createRightNeighborsFromColSums_def bit_lane bit_simps ac_simps
      dest: bit_imp_le_length)

lemma lane_createRight:
  "lane j (createRightNeighborsFromColSums c n) =
     (if j = 0 then lane 15 n else if j < 16 then lane (j - 1) c else 0)"
  by (cases j) (simp_all add: lane_createRight_0 lane_createRight_Suc)

lemma lane_or: "lane j (a OR b) = lane j a OR lane j b"
  by (rule bit_eqI) (auto simp add: bit_lane bit_simps)

lemma lane_bits:
  "lane j w = of_bool (bit w (4 * j)) + 2 * of_bool (bit w (4 * j + 1))
     + 4 * of_bool (bit w (4 * j + 2)) + 8 * of_bool (bit w (4 * j + 3))"
proof -
  define a where "a = drop_bit (4 * j) (unat w)"
  have b: "bit w (4 * j + k) \<longleftrightarrow> odd (a div 2 ^ k)" for k
  proof -
    have "bit w (4 * j + k) \<longleftrightarrow> bit (unat w) (4 * j + k)"
      by (simp add: bit_unsigned_iff)
    also have "\<dots> \<longleftrightarrow> odd (drop_bit k a)"
      by (simp add: a_def bit_iff_odd_drop_bit ac_simps)
    finally show ?thesis
      by (simp add: drop_bit_eq_div)
  qed
  have l: "lane j w = a mod 16"
    by (simp add: lane_div_mod a_def drop_bit_eq_div power_mult)
  have o: "of_bool (odd x) = x mod 2" for x :: nat
    by (simp add: mod_2_eq_odd)
  have "a mod 16 = a mod 2 + 2 * (a div 2 mod 2) + 4 * (a div 4 mod 2) + 8 * (a div 8 mod 2)"
  proof -
    have 1: "a mod 16 = 2 * (a div 2 mod 8) + a mod 2"
      using mod_mult2_eq [of a 2 8] by simp
    have 2: "a div 2 mod 8 = 2 * (a div 4 mod 4) + a div 2 mod 2"
      using mod_mult2_eq [of "a div 2" 2 4] by (simp add: div_mult2_eq [symmetric])
    have 3: "a div 4 mod 4 = 2 * (a div 8 mod 2) + a div 4 mod 2"
      using mod_mult2_eq [of "a div 4" 2 2] by (simp add: div_mult2_eq [symmetric])
    show ?thesis
      unfolding 1 2 3 by simp
  qed
  then show ?thesis
    using b [of 0] b [of 1] b [of 2] b [of 3] by (simp add: l o)
qed

lemma bit_LOW_lane: "k < 4 \<Longrightarrow> bit LOW_BIT_NYBBLE_BITMASK (4 * j + k) \<longleftrightarrow> j < 16 \<and> k = 0"
  by (auto simp add: bit_LOW)

lemma bit_TOP_lane: "k < 4 \<Longrightarrow> bit TOP_NYBBLET_BITTMASK (4 * j + k) \<longleftrightarrow> j < 16 \<and> 2 \<le> k"
  by (auto simp add: bit_TOP)

lemma bit_neighborSumToStateBit:
  assumes "k < 4"
  shows "bit (neighborSumToStateBit s g) (4 * j + k) \<longleftrightarrow>
     k = 0 \<and> j < 16 \<and>
     bit ((s - g) OR g) (4 * j) \<and> bit ((s - g) OR g) (4 * j + 1) \<and>
     \<not> bit ((s - g) OR g) (4 * j + 2) \<and> \<not> bit ((s - g) OR g) (4 * j + 3)"
proof (cases "k = 0 \<and> j < 16")
  case False
  then show ?thesis
    using assms by (auto simp add: neighborSumToStateBit_def Let_def bit_and_iff bit_LOW_lane)
next
  case True
  define X where "X = (s - g) OR g"
  have t: "\<not> bit TOP_NYBBLET_BITTMASK (4 * j)" "\<not> bit TOP_NYBBLET_BITTMASK (4 * j + 1)"
    "bit TOP_NYBBLET_BITTMASK (4 * j + 2)" "bit TOP_NYBBLET_BITTMASK (4 * j + 3)"
    using True bit_TOP_lane [of 0 j] bit_TOP_lane [of 1 j] bit_TOP_lane [of 2 j]
      bit_TOP_lane [of 3 j] by simp_all
  have l: "bit LOW_BIT_NYBBLE_BITMASK (4 * j)"
    using True bit_LOW_lane [of 0 j] by simp
  have "bit (neighborSumToStateBit s g) (4 * j) \<longleftrightarrow>
      bit X (4 * j) \<and> bit X (4 * j + 1) \<and> \<not> bit X (4 * j + 2) \<and> \<not> bit X (4 * j + 3)"
    unfolding neighborSumToStateBit_def Let_def X_def [symmetric]
    using t l by (auto simp add: bit_and_iff bit_xor_iff bit_drop_bit_eq ac_simps
        numeral_2_eq_2 numeral_3_eq_3)
  with True show ?thesis
    by (simp add: X_def)
qed

lemma lane_neighborSumToStateBit:
  "lane j (neighborSumToStateBit s g) = of_bool (j < 16 \<and> lane j ((s - g) OR g) = 3)"
proof -
  have "lane j ((s - g) OR g) = 3 \<longleftrightarrow>
      bit ((s - g) OR g) (4 * j) \<and> bit ((s - g) OR g) (4 * j + 1) \<and>
      \<not> bit ((s - g) OR g) (4 * j + 2) \<and> \<not> bit ((s - g) OR g) (4 * j + 3)"
    by (simp add: lane_bits [of j "(s - g) OR g"])
  then show ?thesis
    using bit_neighborSumToStateBit [of 0 s g j] bit_neighborSumToStateBit [of 1 s g j]
      bit_neighborSumToStateBit [of 2 s g j] bit_neighborSumToStateBit [of 3 s g j]
    by (simp add: lane_bits [of j "neighborSumToStateBit s g"])
qed

lemma lane_or_self:
  assumes "lane j g \<le> 1"
  shows "lane j (a OR g) = 3 \<longleftrightarrow> lane j a = 3 \<or> (lane j a = 2 \<and> lane j g = 1)"
proof -
  have "\<not> bit g (4 * j + 1)" "\<not> bit g (4 * j + 2)" "\<not> bit g (4 * j + 3)"
    using assms by (auto simp add: lane_bits [of j g])
  then show ?thesis
    by (simp add: lane_bits [of j "a OR g"] lane_bits [of j a] lane_bits [of j g] bit_or_iff)
qed

lemma all_lt16:
  "(\<forall>j<16. P j) \<longleftrightarrow> P (0::nat) \<and> P 1 \<and> P 2 \<and> P 3 \<and> P 4 \<and> P 5 \<and> P 6 \<and> P 7 \<and> P 8 \<and> P 9 \<and> P 10
     \<and> P 11 \<and> P 12 \<and> P 13 \<and> P 14 \<and> P 15"
proof -
  have "(\<forall>j<16. P j) \<longleftrightarrow> (\<forall>j\<in>{..<16}. P j)"
    by auto
  also have "\<dots> \<longleftrightarrow> P 0 \<and> P 1 \<and> P 2 \<and> P 3 \<and> P 4 \<and> P 5 \<and> P 6 \<and> P 7 \<and> P 8 \<and> P 9 \<and> P 10
     \<and> P 11 \<and> P 12 \<and> P 13 \<and> P 14 \<and> P 15"
    by (simp only: lessThan_nat_numeral lessThan_Suc pred_numeral_simps Num.BitM.simps
        lessThan_0 ball_simps) (simp add: conj_ac)
  finally show ?thesis .
qed

lemma lane_sub:
  assumes "\<And>i. i < 16 \<Longrightarrow> lane i b \<le> lane i a"
  shows "lane j (a - b) = lane j a - lane j b"
proof -
  define d where "d = pack (\<lambda>i. lane i a - lane i b)"
  have ld: "lane i d = lane i a - lane i b" if "i < 16" for i
  proof -
    have "lane i a - lane i b < 16"
      using lane_less [of i a] by simp
    then show ?thesis
      using that by (simp add: d_def lane_pack take_bit_nat_eq_self)
  qed
  have "lane i (d + b) = lane i d + lane i b" for i
  proof (rule lane_add)
    fix k :: nat assume "k < 16"
    then show "lane k d + lane k b < 16"
      using assms [of k] lane_less [of k a] by (simp add: ld)
  qed
  then have "d + b = a"
    using assms by (intro lane_ext) (simp add: ld)
  then have "a - b = d"
    by (simp add: algebra_simps)
  then show ?thesis
    using ld [of j] lane_ge16 [of j] by (cases "j < 16") simp_all
qed

section \<open>Rule evaluator\<close>

text \<open>
  Claim C3. Let every lane \<open>j < 16\<close> of \<open>sum_neighbors\<close> hold \<open>nc j + sf j\<close>, the
  neighbour count \<open>nc j \<le> 8\<close> plus the self bit \<open>sf j \<le> 1\<close>, and every lane of
  \<open>group_value\<close> hold the self bit. Then lane \<open>j\<close> of
  \<open>neighborSumToStateBit sum_neighbors group_value\<close> is the 4-bit value \<open>1\<close> if
  \<open>nc j = 3\<close> or (\<open>sf j = 1\<close> and \<open>nc j = 2\<close>), and \<open>0\<close> otherwise. This holds for the
  sixteen lanes at once, and the value of lane \<open>j\<close> depends on \<open>nc j\<close> and \<open>sf j\<close> only.
\<close>

theorem neighborSumToStateBit_truth_table:
  fixes nc sf :: "nat \<Rightarrow> nat"
  assumes "\<forall>j<16. nc j \<le> 8 \<and> sf j \<le> 1 \<and> lane j sum_neighbors = nc j + sf j
             \<and> lane j group_value = sf j"
  shows "\<forall>j<16. lane j (neighborSumToStateBit sum_neighbors group_value) =
           (if nc j = 3 \<or> (sf j = 1 \<and> nc j = 2) then 1 else 0)"
proof (intro allI impI)
  fix j :: nat assume j: "j < 16"
  have "lane i group_value \<le> lane i sum_neighbors" if "i < 16" for i
    using assms that by simp
  then have "lane j (sum_neighbors - group_value) = lane j sum_neighbors - lane j group_value"
    by (rule lane_sub)
  then have n: "lane j (sum_neighbors - group_value) = nc j"
    using assms j by simp
  have "lane j group_value \<le> 1"
    using assms j by simp
  then show "lane j (neighborSumToStateBit sum_neighbors group_value) =
           (if nc j = 3 \<or> (sf j = 1 \<and> nc j = 2) then 1 else 0)"
    using assms j by (auto simp add: lane_neighborSumToStateBit lane_or_self n)
qed

theorem neighborSumToStateBit_truth_table_witness:
  "lane 0 (neighborSumToStateBit 0x954233 0x111010) = 1
   \<and> lane 1 (neighborSumToStateBit 0x954233 0x111010) = 1
   \<and> lane 2 (neighborSumToStateBit 0x954233 0x111010) = 0
   \<and> lane 3 (neighborSumToStateBit 0x954233 0x111010) = 1
   \<and> lane 4 (neighborSumToStateBit 0x954233 0x111010) = 0
   \<and> lane 5 (neighborSumToStateBit 0x954233 0x111010) = 0"
proof -
  define nc :: "nat \<Rightarrow> nat" where
    "nc = (\<lambda>j. if j = 0 then 3 else if j = 1 then 2 else if j = 2 then 2
            else if j = 3 then 3 else if j = 4 then 4 else if j = 5 then 8 else 0)"
  define sf :: "nat \<Rightarrow> nat" where
    "sf = (\<lambda>j. if j = 1 \<or> j = 3 \<or> j = 4 \<or> j = 5 then 1 else 0)"
  have h: "\<forall>j<16. nc j \<le> 8 \<and> sf j \<le> 1 \<and> lane j 0x954233 = nc j + sf j
       \<and> lane j 0x111010 = sf j"
    unfolding all_lt16 nc_def sf_def by (simp add: lane_def)
  show ?thesis
    using neighborSumToStateBit_truth_table [OF h] unfolding all_lt16 nc_def sf_def by simp
qed

lemma lane_zero: "lane j 0 = 0"
  by (simp add: lane_def)

lemma lane_add3:
  assumes "\<And>i. lane i a \<le> 1" and "\<And>i. lane i b \<le> 1" and "\<And>i. lane i c \<le> 1"
  shows "lane j (a + (b + c)) = lane j a + (lane j b + lane j c)"
proof -
  have bc: "lane i (b + c) = lane i b + lane i c" for i
  proof (rule lane_add)
    fix k :: nat
    show "lane k b + lane k c < 16"
      using assms(2) [of k] assms(3) [of k] by simp
  qed
  have "lane j (a + (b + c)) = lane j a + lane j (b + c)"
  proof (rule lane_add)
    fix i :: nat
    show "lane i a + lane i (b + c) < 16"
      using assms(1) [of i] assms(2) [of i] assms(3) [of i] by (simp add: bc)
  qed
  then show ?thesis
    by (simp add: bc)
qed

lemma lane_getColSums:
  "lane j ((w AND LOW_BIT_NYBBLE_BITMASK) +
       ((drop_bit 1 t AND LOW_BIT_NYBBLE_BITMASK) + (b AND LOW_BIT_NYBBLE_BITMASK))) =
     of_bool (bit w (4 * j)) + (of_bool (bit t (4 * j + 1)) + of_bool (bit b (4 * j)))"
proof -
  have "lane j ((w AND LOW_BIT_NYBBLE_BITMASK) +
       ((drop_bit 1 t AND LOW_BIT_NYBBLE_BITMASK) + (b AND LOW_BIT_NYBBLE_BITMASK))) =
     lane j (w AND LOW_BIT_NYBBLE_BITMASK) +
       (lane j (drop_bit 1 t AND LOW_BIT_NYBBLE_BITMASK) + lane j (b AND LOW_BIT_NYBBLE_BITMASK))"
  proof (rule lane_add3)
    show "lane i (w AND LOW_BIT_NYBBLE_BITMASK) \<le> 1" for i
      unfolding lane_and_LOW by simp
    show "lane i (drop_bit 1 t AND LOW_BIT_NYBBLE_BITMASK) \<le> 1" for i
      unfolding lane_drop1_and_LOW by simp
    show "lane i (b AND LOW_BIT_NYBBLE_BITMASK) \<le> 1" for i
      unfolding lane_and_LOW by simp
  qed
  then show ?thesis
    by (simp only: lane_drop1_and_LOW [of j t] lane_and_LOW [of j w] lane_and_LOW [of j b])
qed

section \<open>Column-sum extractor\<close>

text \<open>
  Claim C4. For a group index with a group one row above and one row below it in the
  buffer, \<open>getColSumsForGroup\<close> returns the bit-0 lanes of the group as
  \<open>group_val_out\<close>, and column sums whose lane \<open>j\<close> is the self bit plus bit 1 of lane
  \<open>j\<close> of the group one row above plus bit 0 of lane \<open>j\<close> of the group one row below
  (a sum of natural numbers: nothing carries). The board it returns is the board it
  was given.
\<close>

theorem getColSumsForGroup_contract:
  assumes "gpr \<le> group_index" and "group_index + gpr < length board"
  shows "\<exists>colSums. getColSumsForGroup gpr board group_index =
             Some (colSums, board ! group_index AND LOW_BIT_NYBBLE_BITMASK, board)
           \<and> (\<forall>j. lane j (board ! group_index AND LOW_BIT_NYBBLE_BITMASK) =
                   of_bool (bit (board ! group_index) (4 * j))
                \<and> lane j colSums =
                   of_bool (bit (board ! group_index) (4 * j))
                   + (of_bool (bit (board ! (group_index - gpr)) (4 * j + 1))
                      + of_bool (bit (board ! (group_index + gpr)) (4 * j))))"
proof (intro exI conjI allI)
  show "getColSumsForGroup gpr board group_index =
      Some ((board ! group_index AND LOW_BIT_NYBBLE_BITMASK) +
          ((drop_bit 1 (board ! (group_index - gpr)) AND LOW_BIT_NYBBLE_BITMASK) +
           (board ! (group_index + gpr) AND LOW_BIT_NYBBLE_BITMASK)),
        board ! group_index AND LOW_BIT_NYBBLE_BITMASK, board)"
    using assms by (simp add: getColSumsForGroup_def load_def Let_def)
qed (rule lane_and_LOW, rule lane_getColSums)

theorem getColSumsForGroup_contract_witness:
  "(1::nat) \<le> 1 \<and> 1 + 1 < length [0x22, 0x1F, 0x11 :: u64]
   \<and> getColSumsForGroup 1 [0x22, 0x1F, 0x11] 1 = Some (0x33, 0x11, [0x22, 0x1F, 0x11])"
  using getColSumsForGroup_contract [of 1 1 "[0x22, 0x1F, 0x11]"]
  by (simp add: getColSumsForGroup_def load_def LOW_BIT_NYBBLE_BITMASK_def)

section \<open>Neighbor assembler\<close>

text \<open>
  Claim C5. \<open>createLeftNeighborsFromColSums\<close> moves every lane of the current column
  sums one lane down and puts lane 0 of the previous group's column sums into lane 15;
  \<open>createRightNeighborsFromColSums\<close> moves every lane one lane up and puts lane 15 of
  the next group's column sums into lane 0. With the zero sentinel as previous column
  sums the left contribution in lane 15 (the first column of the row) is 0, and with
  all-zero next column sums the right contribution in lane 0 (the last real column) is 0.
  The column sums of an all-zero padding group with all-zero groups above and below it
  are zero. So the cell in the last column gets nothing from column 0, and the cell in
  column 0 nothing from the last column.
\<close>

theorem neighbor_assembly_lanes:
  "lane j (createLeftNeighborsFromColSums curr_col_sums prev_col_sum) =
     (if j < 15 then lane (j + 1) curr_col_sums else if j = 15 then lane 0 prev_col_sum else 0)
   \<and> lane j (createRightNeighborsFromColSums curr_col_sums next_col_sums) =
     (if j = 0 then lane 15 next_col_sums else if j < 16 then lane (j - 1) curr_col_sums else 0)
   \<and> lane 15 (createLeftNeighborsFromColSums curr_col_sums 0) = 0
   \<and> lane 0 (createRightNeighborsFromColSums curr_col_sums 0) = 0
   \<and> (gpr \<le> i \<and> i + gpr < length board
        \<and> board ! i = 0 \<and> board ! (i - gpr) = 0 \<and> board ! (i + gpr) = 0
      \<longrightarrow> getColSumsForGroup gpr board i = Some (0, 0, board))"
proof -
  have "getColSumsForGroup gpr board i = Some (0, 0, board)"
    if "gpr \<le> i" "i + gpr < length board" "board ! i = 0" "board ! (i - gpr) = 0"
      "board ! (i + gpr) = 0"
    using that by (simp add: getColSumsForGroup_def load_def)
  then show ?thesis
    by (simp add: lane_createLeft lane_createRight lane_zero)
qed

theorem neighbor_assembly_lanes_witness:
  "getColSumsForGroup 2 [0, 0, 0x111, 0, 0, 0] 3 = Some (0, 0, [0, 0, 0x111, 0, 0, 0])
   \<and> lane 0 (createRightNeighborsFromColSums 0x1230000000000321 0) = 0
   \<and> lane 1 (createRightNeighborsFromColSums 0x1230000000000321 0) = 1
   \<and> lane 15 (createLeftNeighborsFromColSums 0x1230000000000321 0) = 0
   \<and> lane 14 (createLeftNeighborsFromColSums 0x1230000000000321 0) = 1
   \<and> lane 15 (createLeftNeighborsFromColSums 0 0x1230000000000321) = 1
   \<and> lane 0 (createRightNeighborsFromColSums 0 0x1230000000000321) = 1"
proof -
  have l: "lane 0 (0x1230000000000321 :: u64) = 1" "lane 15 (0x1230000000000321 :: u64) = 1"
    "lane 1 (0 :: u64) = 0" "lane 14 (0 :: u64) = 0"
    by (simp_all add: lane_def)
  show ?thesis
    using neighbor_assembly_lanes [of 0 "0x1230000000000321" 0 0 2 3 "[0, 0, 0x111, 0, 0, 0]"]
      neighbor_assembly_lanes [of 1 "0x1230000000000321" 0 0 2 3 "[0, 0, 0x111, 0, 0, 0]"]
      neighbor_assembly_lanes [of 15 "0x1230000000000321" 0 0 2 3 "[0, 0, 0x111, 0, 0, 0]"]
      neighbor_assembly_lanes [of 14 "0x1230000000000321" 0 0 2 3 "[0, 0, 0x111, 0, 0, 0]"]
      neighbor_assembly_lanes [of 15 0 "0x1230000000000321" "0x1230000000000321" 2 3 "[0, 0, 0x111, 0, 0, 0]"]
      neighbor_assembly_lanes [of 0 0 "0x1230000000000321" "0x1230000000000321" 2 3 "[0, 0, 0x111, 0, 0, 0]"]
    by (simp add: l)
qed

lemma bit_updated_word:
  "bit (push_bit 1 (p AND LOW_BIT_NYBBLE_BITMASK) OR (n AND LOW_BIT_NYBBLE_BITMASK)) m
     \<longleftrightarrow> (m mod 4 = 0 \<and> bit n m) \<or> (m mod 4 = 1 \<and> m < 64 \<and> bit p (m - 1))"
proof -
  have a: "1 \<le> m \<and> (m - 1) mod 4 = 0 \<longleftrightarrow> m mod 4 = 1"
    by presburger
  have b: "bit (push_bit 1 (p AND LOW_BIT_NYBBLE_BITMASK)) m \<longleftrightarrow>
      m mod 4 = 1 \<and> m < 64 \<and> bit p (m - 1)"
    unfolding bit_push_bit_iff bit_and_iff bit_LOW using a
    by (auto dest: bit_imp_le_length)
  have c: "bit (n AND LOW_BIT_NYBBLE_BITMASK) m \<longleftrightarrow> m mod 4 = 0 \<and> bit n m"
    unfolding bit_and_iff bit_LOW by (auto dest: bit_imp_le_length)
  show ?thesis
    unfolding bit_or_iff b c by blast
qed

lemma updated_word_prev:
  "drop_bit 1 (push_bit 1 (p AND LOW_BIT_NYBBLE_BITMASK) OR (n AND LOW_BIT_NYBBLE_BITMASK))
     AND LOW_BIT_NYBBLE_BITMASK = p AND LOW_BIT_NYBBLE_BITMASK"
proof -
  define w where "w = push_bit 1 (p AND LOW_BIT_NYBBLE_BITMASK) OR (n AND LOW_BIT_NYBBLE_BITMASK)"
  have "bit w (4 * j + 1) \<longleftrightarrow> bit p (4 * j)" for j
    unfolding w_def bit_updated_word by (auto dest: bit_imp_le_length)
  then have "lane j (drop_bit 1 w AND LOW_BIT_NYBBLE_BITMASK) = lane j (p AND LOW_BIT_NYBBLE_BITMASK)" for j
    by (simp only: lane_drop1_and_LOW [of j w] lane_and_LOW [of j p])
  then show ?thesis
    unfolding w_def by (intro lane_ext)
qed

lemma updated_word_curr:
  "(push_bit 1 (p AND LOW_BIT_NYBBLE_BITMASK) OR (n AND LOW_BIT_NYBBLE_BITMASK))
     AND LOW_BIT_NYBBLE_BITMASK = n AND LOW_BIT_NYBBLE_BITMASK"
proof -
  define w where "w = push_bit 1 (p AND LOW_BIT_NYBBLE_BITMASK) OR (n AND LOW_BIT_NYBBLE_BITMASK)"
  have "bit w (4 * j) \<longleftrightarrow> bit n (4 * j)" for j
    unfolding w_def bit_updated_word by simp
  then have "lane j (w AND LOW_BIT_NYBBLE_BITMASK) = lane j (n AND LOW_BIT_NYBBLE_BITMASK)" for j
    by (simp only: lane_and_LOW)
  then show ?thesis
    unfolding w_def by (intro lane_ext)
qed

section \<open>Write-back\<close>

text \<open>
  Claim C6. For an index inside the buffer, \<open>updateBoardIndex\<close> stores at that index
  exactly the bit-0 lanes of the previous state shifted into bit 1, or-ed with the
  bit-0 lanes of the new state. In the stored word bit 0 of every lane is the new
  state's, bit 1 is bit 0 of the previous state, bits 2 and 3 are zero; shifting the
  stored word right by one and masking gives back the bit-0 lanes of the previous state.
\<close>

theorem updateBoardIndex_contract:
  assumes "board_index < length board"
  shows "\<exists>w. updateBoardIndex board board_index new_state_bit_values prev_board_state =
             Some (board[board_index := w])
           \<and> w = push_bit 1 (prev_board_state AND LOW_BIT_NYBBLE_BITMASK)
                 OR (new_state_bit_values AND LOW_BIT_NYBBLE_BITMASK)
           \<and> (\<forall>j. (bit w (4 * j) \<longleftrightarrow> bit new_state_bit_values (4 * j))
                \<and> (bit w (4 * j + 1) \<longleftrightarrow> bit prev_board_state (4 * j))
                \<and> \<not> bit w (4 * j + 2) \<and> \<not> bit w (4 * j + 3))
           \<and> drop_bit 1 w AND LOW_BIT_NYBBLE_BITMASK =
               prev_board_state AND LOW_BIT_NYBBLE_BITMASK"
proof -
  define w where "w = push_bit 1 (prev_board_state AND LOW_BIT_NYBBLE_BITMASK)
                 OR (new_state_bit_values AND LOW_BIT_NYBBLE_BITMASK)"
  have "updateBoardIndex board board_index new_state_bit_values prev_board_state =
      Some (board[board_index := w])"
    using assms unfolding w_def by (simp only: updateBoardIndex_def store_def Let_def if_True)
  moreover have "bit w (4 * j) \<longleftrightarrow> bit new_state_bit_values (4 * j)" for j
    unfolding w_def bit_updated_word by simp
  moreover have "bit w (4 * j + 1) \<longleftrightarrow> bit prev_board_state (4 * j)" for j
    unfolding w_def bit_updated_word by (auto dest: bit_imp_le_length)
  moreover have "\<not> bit w (4 * j + 2)" "\<not> bit w (4 * j + 3)" for j
  proof -
    have "(4 * j + 2) mod 4 = 2" "(4 * j + 3) mod 4 = 3"
      by presburger+
    then show "\<not> bit w (4 * j + 2)" "\<not> bit w (4 * j + 3)"
      unfolding w_def bit_updated_word by simp_all
  qed
  moreover have "drop_bit 1 w AND LOW_BIT_NYBBLE_BITMASK =
      prev_board_state AND LOW_BIT_NYBBLE_BITMASK"
    unfolding w_def by (rule updated_word_prev)
  ultimately show ?thesis
    using w_def by blast
qed

theorem updateBoardIndex_contract_witness:
  "(1::nat) < length [0, 0x11, 0 :: u64]
   \<and> updateBoardIndex [0, 0x11, 0] 1 0x10 0x11 = Some [0, 0x32, 0]
   \<and> drop_bit 1 (0x32 :: u64) AND LOW_BIT_NYBBLE_BITMASK = 0x11 AND LOW_BIT_NYBBLE_BITMASK"
  using updateBoardIndex_contract [of 1 "[0, 0x11, 0]" "0x10" "0x11"]
  by (simp add: updateBoardIndex_def store_def LOW_BIT_NYBBLE_BITMASK_def)

section \<open>The row driver\<close>

text \<open>
  The loop of \<open>runRow\<close> reads group \<open>grp\<close> and the groups above and below it before it
  writes group \<open>grp - 1\<close>, and writes no other row: every column sum it fetches is the
  column sum of the board the row started from.
\<close>

lemma getColSumsForGroup_Some:
  assumes "gpr \<le> i" and "i + gpr < length b"
  shows "getColSumsForGroup gpr b i =
    Some (colsums gpr b i, b ! i AND LOW_BIT_NYBBLE_BITMASK, b)"
  using assms by (simp add: getColSumsForGroup_def load_def Let_def colsums_def)

lemma length_row_result [simp]: "length (row_result gpr b rsi k) = length b"
  by (simp add: row_result_def)

lemma nth_row_result:
  "i < length b \<Longrightarrow> row_result gpr b rsi k ! i =
     (if rsi \<le> i \<and> i < rsi + k then new_group gpr b rsi (i - rsi) else b ! i)"
  by (simp add: row_result_def)

lemma row_result_0: "row_result gpr b rsi 0 = b"
  by (rule nth_equalityI) (auto simp add: nth_row_result)

lemma row_result_Suc:
  assumes "rsi + k < length b"
  shows "(row_result gpr b rsi k)[rsi + k := new_group gpr b rsi k] = row_result gpr b rsi (Suc k)"
  using assms by (intro nth_equalityI) (auto simp add: nth_row_result nth_list_update)

lemma colsums_row_result:
  assumes "gpr \<le> rsi" and "rsi + k + gpr < length b" and "k < gpr" and "m \<le> k"
  shows "colsums gpr (row_result gpr b rsi m) (rsi + k) = colsums gpr b (rsi + k)"
  using assms by (auto simp add: colsums_def nth_row_result)

lemma runRow_loop_inv:
  assumes "gpr \<le> rsi" and "rsi + 2 * gpr \<le> length b" and "1 \<le> k" and "k \<le> gpr"
  shows "runRow_loop gpr rsi k p (if k = 1 then 0 else colsums gpr b (rsi + k - 2))
           (colsums gpr b (rsi + k - 1)) (b ! (rsi + k - 1) AND LOW_BIT_NYBBLE_BITMASK)
           (row_result gpr b rsi (k - 1))
         = Some (row_result gpr b rsi (gpr - 1))"
  using assms
proof (induction "gpr - k" arbitrary: k p)
  case 0
  then have "k = gpr" by simp
  then show ?case
    by (subst runRow_loop.simps) simp
next
  case (Suc d)
  then have k: "k < gpr" "1 \<le> k" by simp_all
  have g: "getColSumsForGroup gpr (row_result gpr b rsi (k - 1)) (rsi + k) =
      Some (colsums gpr b (rsi + k), b ! (rsi + k) AND LOW_BIT_NYBBLE_BITMASK,
            row_result gpr b rsi (k - 1))"
    using Suc.prems k
    by (auto simp add: getColSumsForGroup_Some colsums_row_result nth_row_result)
  have n: "push_bit 1 ((b ! (rsi + k - 1) AND LOW_BIT_NYBBLE_BITMASK) AND LOW_BIT_NYBBLE_BITMASK)
        OR (neighborSumToStateBit
             (colsums gpr b (rsi + k - 1)
              + createLeftNeighborsFromColSums (colsums gpr b (rsi + k - 1))
                  (if k = 1 then 0 else colsums gpr b (rsi + k - 2))
              + createRightNeighborsFromColSums (colsums gpr b (rsi + k - 1))
                  (colsums gpr b (rsi + k)))
             (b ! (rsi + k - 1) AND LOW_BIT_NYBBLE_BITMASK) AND LOW_BIT_NYBBLE_BITMASK)
      = new_group gpr b rsi (k - 1)"
  proof -
    have "rsi + (k - 1) = rsi + k - 1" "rsi + (k - 1) + 1 = rsi + k"
      "rsi + (k - 1) - 1 = rsi + k - 2" "k - 1 = 0 \<longleftrightarrow> k = 1"
      using k by auto
    then show ?thesis
      by (simp only: new_group_def Let_def next_state_def)
  qed
  have u: "updateBoardIndex (row_result gpr b rsi (k - 1)) (rsi + k - 1)
        (neighborSumToStateBit
             (colsums gpr b (rsi + k - 1)
              + createLeftNeighborsFromColSums (colsums gpr b (rsi + k - 1))
                  (if k = 1 then 0 else colsums gpr b (rsi + k - 2))
              + createRightNeighborsFromColSums (colsums gpr b (rsi + k - 1))
                  (colsums gpr b (rsi + k)))
             (b ! (rsi + k - 1) AND LOW_BIT_NYBBLE_BITMASK))
        (b ! (rsi + k - 1) AND LOW_BIT_NYBBLE_BITMASK)
      = Some (row_result gpr b rsi k)"
  proof -
    have "rsi + (k - 1) < length b" "rsi + (k - 1) = rsi + k - 1" "Suc (k - 1) = k"
      using Suc.prems k by auto
    then show ?thesis
      using row_result_Suc [of rsi "k - 1" b gpr]
      by (simp only: updateBoardIndex_def store_def Let_def n length_row_result if_True)
  qed
  have ih: "runRow_loop gpr rsi (k + 1) (if k = 1 then 0 else colsums gpr b (rsi + k - 2))
       (colsums gpr b (rsi + k - 1)) (colsums gpr b (rsi + k))
       (b ! (rsi + k) AND LOW_BIT_NYBBLE_BITMASK) (row_result gpr b rsi k)
     = Some (row_result gpr b rsi (gpr - 1))"
    using Suc.hyps(1) [of "k + 1" "if k = 1 then 0 else colsums gpr b (rsi + k - 2)"]
      Suc.hyps(2) Suc.prems k by (simp add: numeral_2_eq_2)
  show ?case
    by (subst runRow_loop.simps)
      (simp only: k(1) if_True moveColSumsDownPipeline_def prod.case Let_def g option.case u ih)
qed

lemma runRow_Some:
  assumes "1 \<le> row" and "(row + 2) * gpr \<le> length b" and "1 \<le> gpr"
  shows "runRow gpr b row = Some (row_result gpr b (row * gpr) (gpr - 1))"
proof -
  have r: "gpr \<le> row * gpr" "row * gpr + 2 * gpr \<le> length b" "row * gpr + gpr < length b"
    using assms by (simp_all add: algebra_simps)
  have "runRow_loop gpr (row * gpr) 1 0 0 (colsums gpr b (row * gpr))
      (b ! (row * gpr) AND LOW_BIT_NYBBLE_BITMASK) b = Some (row_result gpr b (row * gpr) (gpr - 1))"
    using runRow_loop_inv [of gpr "row * gpr" b 1 0] r assms(3) by (simp add: row_result_0)
  then show ?thesis
    using r by (simp add: runRow_def getColSumsForGroup_Some)
qed

section \<open>The generation driver\<close>

lemma length_rows_done [simp]: "length (rows_done gpr b k) = length b"
  by (induction k) simp_all

lemma advance_loop_inv:
  assumes "length b = (nr + 2) * gpr" and "1 \<le> gpr" and "k \<le> nr"
  shows "advance_loop nr gpr (Suc k) (rows_done gpr b k) = Some (rows_done gpr b nr)"
  using assms(3)
proof (induction "nr - k" arbitrary: k)
  case 0
  then have "k = nr" by simp
  then show ?case
    by (subst advance_loop.simps) simp
next
  case (Suc d)
  then have k: "Suc k < nr + 1" by simp
  have "(Suc k + 2) * gpr \<le> (nr + 2) * gpr"
    using k by (intro mult_le_mono1) simp
  then have r: "runRow gpr (rows_done gpr b k) (Suc k) = Some (rows_done gpr b (Suc k))"
    using assms(1,2) by (simp add: runRow_Some del: mult_Suc)
  have ih: "advance_loop nr gpr (Suc k + 1) (rows_done gpr b (Suc k)) = Some (rows_done gpr b nr)"
    using Suc.hyps(1) [of "Suc k"] Suc.hyps(2) k by simp
  show ?case
    by (subst advance_loop.simps) (simp only: k if_True r option.case ih)
qed

lemma advance_Some:
  assumes "length b = (nr + 2) * gpr" and "1 \<le> gpr"
  shows "advance nr gpr b = Some (rows_done gpr b nr)"
  using advance_loop_inv [OF assms, of 0] by (simp add: advance_def)

lemma row_index_mod: "d < gpr \<Longrightarrow> (r * gpr + d) mod gpr = (d::nat)"
  by simp

lemma row_index_div: "d < gpr \<Longrightarrow> (r * gpr + d) div gpr = (r::nat)"
  by simp

lemma not_border_interior:
  assumes "1 \<le> row" and "row \<le> nr" and "col < gpr - 1"
  shows "\<not> is_border nr gpr (row * gpr + col)" and "row * gpr + col < gpr * (nr + 2)"
proof -
  have c: "col < gpr"
    using assms(3) by simp
  have m: "(row * gpr + col) mod gpr = col"
    using c by (rule row_index_mod)
  have "1 * gpr \<le> row * gpr"
    using assms(1) by (rule mult_le_mono1)
  then have "gpr \<le> row * gpr"
    by (simp only: mult_1)
  then have lo: "gpr \<le> row * gpr + col"
    by (rule trans_le_add1)
  have "row * gpr \<le> nr * gpr"
    using assms(2) by (rule mult_le_mono1)
  then have hi: "row * gpr + col < nr * gpr + gpr"
    using c by linarith
  show "\<not> is_border nr gpr (row * gpr + col)"
    unfolding is_border_def m using lo hi assms(3) by (simp add: add_mult_distrib)
  show "row * gpr + col < gpr * (nr + 2)"
    using hi by (simp add: algebra_simps)
qed

lemma rows_done_frame:
  assumes "i < length b" and "1 \<le> gpr" and "k \<le> nr" and "is_border nr gpr i"
  shows "rows_done gpr b k ! i = b ! i"
  using assms(3)
proof (induction k)
  case 0
  then show ?case by simp
next
  case (Suc k)
  have "\<not> (Suc k * gpr \<le> i \<and> i < Suc k * gpr + (gpr - 1))"
  proof
    assume a: "Suc k * gpr \<le> i \<and> i < Suc k * gpr + (gpr - 1)"
    then obtain d where d: "i = Suc k * gpr + d" "d < gpr - 1"
      by (metis add_diff_inverse_nat linorder_not_less nat_add_left_cancel_less)
    then have "d < gpr"
      by simp
    then have "i mod gpr = d"
      unfolding d(1) by (rule row_index_mod)
    moreover have "gpr \<le> i"
      using a by (simp add: le_trans [OF _ conjunct1])
    moreover have "Suc k * gpr + gpr \<le> (nr + 1) * gpr"
      using Suc.prems mult_le_mono1 [of "Suc (Suc k)" "nr + 1" gpr] by simp
    ultimately show False
      using assms(4) d a unfolding is_border_def by linarith
  qed
  with Suc assms(1) show ?case
    by (auto simp add: nth_row_result simp del: mult_Suc)
qed

lemma length_generations [simp]: "length (generations nr gpr n b) = length b"
  by (induction n arbitrary: b) simp_all

lemma advance_reps_Some:
  assumes "length b = (nr + 2) * gpr" and "1 \<le> gpr"
  shows "advance_reps nr gpr n b = Some (generations nr gpr n b)"
  using assms by (induction n arbitrary: b) (simp_all add: advance_Some)

lemma generations_frame:
  assumes "i < length b" and "1 \<le> gpr" and "is_border nr gpr i"
  shows "generations nr gpr n b ! i = b ! i"
  using assms by (induction n arbitrary: b) (simp_all add: rows_done_frame [where nr = nr and k = nr])

lemma border_dead_rows_done:
  assumes "1 \<le> gpr" and "border_dead nr gpr b"
  shows "border_dead nr gpr (rows_done gpr b nr)"
  using assms by (simp add: border_dead_def rows_done_frame [where nr = nr and k = nr])

lemma border_dead_generations:
  assumes "1 \<le> gpr" and "border_dead nr gpr b"
  shows "border_dead nr gpr (generations nr gpr n b)"
  using assms by (induction n arbitrary: b) (simp_all add: border_dead_rows_done)

section \<open>Rows in any order\<close>

text \<open>
  What every call of \<open>runRow\<close> on an interior row keeps, every schedule keeps, in
  whatever order it runs the rows.
\<close>

lemma advance_loop_schedule:
  "advance_loop nr gpr row board = advance_schedule gpr [row..<nr + 1] board"
proof (induction nr gpr row board rule: advance_loop.induct)
  case (1 nr gpr row board)
  show ?case
  proof (cases "row < nr + 1")
    case True
    then have u: "[row..<nr + 1] = row # [row + 1..<nr + 1]"
      by (simp add: upt_conv_Cons)
    have "advance_loop nr gpr row board =
        (case runRow gpr board row of
           None \<Rightarrow> None
         | Some board' \<Rightarrow> advance_loop nr gpr (row + 1) board')"
      using True by (subst advance_loop.simps) (simp only: if_True)
    also have "\<dots> =
        (case runRow gpr board row of
           None \<Rightarrow> None
         | Some board' \<Rightarrow> advance_schedule gpr [row + 1..<nr + 1] board')"
      using 1 [OF True] by (cases "runRow gpr board row") (simp_all only: option.case)
    also have "\<dots> = advance_schedule gpr (row # [row + 1..<nr + 1]) board"
      by (simp only: advance_schedule.simps)
    finally show ?thesis
      by (simp only: u)
  next
    case False
    then show ?thesis
      by (subst advance_loop.simps) simp
  qed
qed

lemma advance_schedule_sequential: "advance nr gpr board = advance_schedule gpr [1..<nr + 1] board"
  by (simp only: advance_def advance_loop_schedule)

lemma advance_reps_steps:
  "advance_reps nr gpr n board = advance_steps gpr (replicate n [1..<nr + 1]) board"
proof (induction n arbitrary: board)
  case 0
  then show ?case by simp
next
  case (Suc n)
  show ?case
    by (cases "advance_schedule gpr [1..<nr + 1] board")
      (simp_all add: advance_schedule_sequential Suc del: upt_Suc)
qed

lemma advance_schedule_invariant:
  assumes "length b = (nr + 2) * gpr" and "1 \<le> gpr" and "set rows \<subseteq> {1..nr}" and "P b"
    and step: "\<And>x row. P x \<Longrightarrow> length x = (nr + 2) * gpr \<Longrightarrow> 1 \<le> row \<Longrightarrow> row \<le> nr
      \<Longrightarrow> P (row_result gpr x (row * gpr) (gpr - 1))"
  shows "\<exists>b'. advance_schedule gpr rows b = Some b' \<and> length b' = length b \<and> P b'"
  using assms(1,3,4)
proof (induction rows arbitrary: b)
  case Nil
  then show ?case by simp
next
  case (Cons row rows)
  then have r: "1 \<le> row" "row \<le> nr"
    by simp_all
  have "(row + 2) * gpr \<le> (nr + 2) * gpr"
    using r(2) by (intro mult_le_mono1) simp
  then have run: "runRow gpr b row = Some (row_result gpr b (row * gpr) (gpr - 1))"
    using r(1) assms(2) Cons.prems(1) by (intro runRow_Some) simp_all
  have "\<exists>b'. advance_schedule gpr rows (row_result gpr b (row * gpr) (gpr - 1)) = Some b'
      \<and> length b' = length (row_result gpr b (row * gpr) (gpr - 1)) \<and> P b'"
  proof (rule Cons.IH)
    show "length (row_result gpr b (row * gpr) (gpr - 1)) = (nr + 2) * gpr"
      using Cons.prems(1) by simp
    show "set rows \<subseteq> {1..nr}"
      using Cons.prems(2) by simp
    show "P (row_result gpr b (row * gpr) (gpr - 1))"
      using Cons.prems(3) Cons.prems(1) r by (rule step)
  qed
  then show ?case
    by (simp add: run)
qed

lemma advance_steps_invariant:
  assumes "length b = (nr + 2) * gpr" and "1 \<le> gpr" and "\<forall>rows\<in>set scheds. set rows \<subseteq> {1..nr}"
    and "P b"
    and step: "\<And>x row. P x \<Longrightarrow> length x = (nr + 2) * gpr \<Longrightarrow> 1 \<le> row \<Longrightarrow> row \<le> nr
      \<Longrightarrow> P (row_result gpr x (row * gpr) (gpr - 1))"
  shows "\<exists>b'. advance_steps gpr scheds b = Some b' \<and> length b' = length b \<and> P b'"
  using assms(1,3,4)
proof (induction scheds arbitrary: b)
  case Nil
  then show ?case by simp
next
  case (Cons rows scheds)
  have "\<exists>b'. advance_schedule gpr rows b = Some b' \<and> length b' = length b \<and> P b'"
    using Cons.prems(1) assms(2) _ Cons.prems(3) step
  proof (rule advance_schedule_invariant)
    show "set rows \<subseteq> {1..nr}"
      using Cons.prems(2) by simp
  qed
  then obtain b1 where b1: "advance_schedule gpr rows b = Some b1" "length b1 = length b" "P b1"
    by blast
  have "\<exists>b'. advance_steps gpr scheds b1 = Some b' \<and> length b' = length b1 \<and> P b'"
    using b1 Cons.prems by (intro Cons.IH) simp_all
  then show ?case
    by (simp add: b1)
qed

lemma row_result_frame:
  assumes "1 \<le> row" and "row \<le> nr" and "i < length b" and "is_border nr gpr i"
  shows "row_result gpr b (row * gpr) (gpr - 1) ! i = b ! i"
proof -
  have "\<not> (row * gpr \<le> i \<and> i < row * gpr + (gpr - 1))"
  proof
    assume a: "row * gpr \<le> i \<and> i < row * gpr + (gpr - 1)"
    define d where "d = i - row * gpr"
    have d: "i = row * gpr + d" "d < gpr - 1"
      using a unfolding d_def by linarith+
    show False
      using not_border_interior(1) [OF assms(1,2) d(2)] assms(4) unfolding d(1) by blast
  qed
  then show ?thesis
    using assms(3) by (simp only: nth_row_result if_False)
qed

lemma advance_steps_frame:
  assumes len: "length b = (nr + 2) * gpr" and gpr: "1 \<le> gpr"
    and s: "\<forall>rows\<in>set scheds. set rows \<subseteq> {1..nr}"
  shows "\<exists>b'. advance_steps gpr scheds b = Some b' \<and> length b' = length b
           \<and> (\<forall>i<length b. is_border nr gpr i \<longrightarrow> b' ! i = b ! i)"
proof (rule advance_steps_invariant [OF len gpr s])
  show "\<forall>i<length b. is_border nr gpr i \<longrightarrow> b ! i = b ! i"
    by simp
next
  fix x row
  assume P: "\<forall>i<length b. is_border nr gpr i \<longrightarrow> x ! i = b ! i"
    and lx: "length x = (nr + 2) * gpr" and r: "1 \<le> row" "row \<le> nr"
  show "\<forall>i<length b.
      is_border nr gpr i \<longrightarrow> row_result gpr x (row * gpr) (gpr - 1) ! i = b ! i"
  proof (intro allI impI)
    fix i
    assume i: "i < length b" "is_border nr gpr i"
    have "i < length x"
      using i(1) len lx by simp
    with r have "row_result gpr x (row * gpr) (gpr - 1) ! i = x ! i"
      using i(2) by (rule row_result_frame)
    also have "x ! i = b ! i"
      using P i by blast
    finally show "row_result gpr x (row * gpr) (gpr - 1) ! i = b ! i" .
  qed
qed

lemma border_dead_frame:
  assumes "length b' = length b" and "\<forall>i<length b. is_border nr gpr i \<longrightarrow> b' ! i = b ! i"
    and "border_dead nr gpr b"
  shows "border_dead nr gpr b'"
  using assms by (simp add: border_dead_def)

lemma advance_steps_border:
  assumes len: "length b = (nr + 2) * gpr" and gpr: "1 \<le> gpr"
    and s: "\<forall>rows\<in>set scheds. set rows \<subseteq> {1..nr}"
  shows "\<exists>b'. advance_steps gpr scheds b = Some b' \<and> length b' = length b
           \<and> (\<forall>i<length b. is_border nr gpr i \<longrightarrow> b' ! i = b ! i)
           \<and> (border_dead nr gpr b \<longrightarrow> border_dead nr gpr b')"
proof -
  obtain b' where b': "advance_steps gpr scheds b = Some b'" "length b' = length b"
      "\<forall>i<length b. is_border nr gpr i \<longrightarrow> b' ! i = b ! i"
    using advance_steps_frame [OF len gpr s] by blast
  have "border_dead nr gpr b \<longrightarrow> border_dead nr gpr b'"
    using b'(2,3) by (blast intro: border_dead_frame)
  with b' show ?thesis
    by blast
qed

section \<open>Border immutability\<close>

text \<open>
  Claim C7. On a board of \<open>nr + 2\<close> rows of \<open>gpr\<close> groups, every word of the top border
  row, of the bottom border row and of the trailing padding group of every row is never
  written: \<open>runRow\<close> on a row \<open>1 \<dots> nr\<close> writes groups \<open>0 \<dots> gpr - 2\<close> of that row only.
  This does not depend on the order in which the parallel loop runs the rows. Any
  number of calls of \<open>advance\<close> with the rows in increasing order, and any list of
  schedules \<open>scheds\<close>, each a list of rows \<open>1 \<dots> nr\<close> in any order (a step of the parallel
  loop is a schedule that holds every row once; the board in the middle of a step is
  reached by a schedule that holds some of them), returns a board of the same length in
  which each of these words is the word it was before. So if these words are all zero
  before, they are all zero after.
\<close>

theorem border_stays_dead:
  assumes "length board = (nr + 2) * gpr" and "1 \<le> gpr"
  shows "(\<exists>board'. advance_reps nr gpr n board = Some board'
            \<and> length board' = length board
            \<and> (\<forall>i<length board. is_border nr gpr i \<longrightarrow> board' ! i = board ! i)
            \<and> (border_dead nr gpr board \<longrightarrow> border_dead nr gpr board'))
    \<and> ((\<forall>rows\<in>set scheds. set rows \<subseteq> {1..nr})
         \<longrightarrow> (\<exists>board'. advance_steps gpr scheds board = Some board'
                \<and> length board' = length board
                \<and> (\<forall>i<length board. is_border nr gpr i \<longrightarrow> board' ! i = board ! i)
                \<and> (border_dead nr gpr board \<longrightarrow> border_dead nr gpr board')))"
proof (intro conjI impI)
  show "\<exists>board'. advance_reps nr gpr n board = Some board'
      \<and> length board' = length board
      \<and> (\<forall>i<length board. is_border nr gpr i \<longrightarrow> board' ! i = board ! i)
      \<and> (border_dead nr gpr board \<longrightarrow> border_dead nr gpr board')"
    using assms
    by (simp add: advance_reps_Some generations_frame border_dead_generations)
next
  assume "\<forall>rows\<in>set scheds. set rows \<subseteq> {1..nr}"
  with assms show "\<exists>board'. advance_steps gpr scheds board = Some board'
      \<and> length board' = length board
      \<and> (\<forall>i<length board. is_border nr gpr i \<longrightarrow> board' ! i = board ! i)
      \<and> (border_dead nr gpr board \<longrightarrow> border_dead nr gpr board')"
    by (rule advance_steps_border)
qed

theorem border_stays_dead_witness:
  "advance_reps 2 2 2 [0, 0, 0x111, 0, 0, 0, 0, 0] = Some [0, 0, 0x20, 0, 0x20, 0, 0, 0]
   \<and> advance_steps 2 [[2, 1], [1, 2]] [0, 0, 0x111, 0, 0, 0, 0, 0]
       = Some [0, 0, 0x20, 0, 0, 0, 0, 0]
   \<and> border_dead 2 2 [0, 0, 0x111, 0, 0, 0, 0, 0]
   \<and> border_dead 2 2 [0, 0, 0x20, 0, 0x20, 0, 0, 0]
   \<and> border_dead 2 2 [0, 0, 0x20, 0, 0, 0, 0, 0]"
proof -
  have e: "advance_reps 2 2 2 [0, 0, 0x111, 0, 0, 0, 0, 0] = Some [0, 0, 0x20, 0, 0x20, 0, 0, 0]"
    by code_simp
  have g: "advance_steps 2 [[2, 1], [1, 2]] [0, 0, 0x111, 0, 0, 0, 0, 0]
      = Some [0, 0, 0x20, 0, 0, 0, 0, 0]"
    by code_simp
  have l: "length [0, 0, 0x111, 0, 0, 0, 0, 0 :: u64] = (2 + 2) * 2" "(1::nat) \<le> 2"
    by simp_all
  have d: "border_dead 2 2 [0, 0, 0x111, 0, 0, 0, 0, 0]"
    by code_simp
  show ?thesis
    using border_stays_dead [OF l, of 2 "[[2, 1], [1, 2]]"] e g d by simp
qed

lemma BOARD_SIZE_GROUPS_eq: "BOARD_SIZE_GROUPS = (R + 2) * GROUPS_PER_ROW"
  by (simp add: BOARD_SIZE_GROUPS_def)

lemma GROUPS_PER_ROW_pos: "1 \<le> GROUPS_PER_ROW"
  by (simp add: GROUPS_PER_ROW_def)

section \<open>Memory safety of one step\<close>

text \<open>
  Claim C9. On a buffer of \<open>BOARD_SIZE_GROUPS\<close> words, the number \<^verbatim>\<open>main\<close> allocates,
  \<open>advance\<close> with the program's \<open>R\<close> and \<open>GROUPS_PER_ROW\<close> returns a board: no read of
  \<open>getColSumsForGroup\<close> and no write of \<open>updateBoardIndex\<close> falls outside the buffer
  (an access outside is the result \<open>None\<close>). For every row in \<open>1 \<dots> R\<close> and group
  below \<open>GROUPS_PER_ROW\<close> the group index is at least \<open>GROUPS_PER_ROW\<close>, so the index
  one row above does not wrap, and the index one row below and the index written are below
  \<open>BOARD_SIZE_GROUPS\<close>.
\<close>

theorem advance_accesses_in_bounds:
  assumes "length board = BOARD_SIZE_GROUPS"
  shows "(\<exists>board'. advance R GROUPS_PER_ROW board = Some board'
            \<and> length board' = BOARD_SIZE_GROUPS)
         \<and> (\<forall>row grp. 1 \<le> row \<and> row \<le> R \<and> grp < GROUPS_PER_ROW \<longrightarrow>
               GROUPS_PER_ROW \<le> row * GROUPS_PER_ROW + grp
               \<and> row * GROUPS_PER_ROW + grp + GROUPS_PER_ROW < BOARD_SIZE_GROUPS
               \<and> row * GROUPS_PER_ROW + grp - 1 < BOARD_SIZE_GROUPS)"
proof (intro conjI allI impI)
  show "\<exists>board'. advance R GROUPS_PER_ROW board = Some board' \<and> length board' = BOARD_SIZE_GROUPS"
    using assms advance_Some [OF _ GROUPS_PER_ROW_pos, of board R]
    by (simp add: BOARD_SIZE_GROUPS_eq)
next
  fix row grp
  assume a: "1 \<le> row \<and> row \<le> R \<and> grp < GROUPS_PER_ROW"
  then have "1 * GROUPS_PER_ROW \<le> row * GROUPS_PER_ROW"
    by (intro mult_le_mono1) simp
  then have 1: "GROUPS_PER_ROW \<le> row * GROUPS_PER_ROW"
    by (simp only: mult_1)
  from a have 2: "row * GROUPS_PER_ROW \<le> R * GROUPS_PER_ROW"
    by (intro mult_le_mono1) simp
  show "GROUPS_PER_ROW \<le> row * GROUPS_PER_ROW + grp"
    using 1 by (rule trans_le_add1)
  have "BOARD_SIZE_GROUPS = R * GROUPS_PER_ROW + 2 * GROUPS_PER_ROW"
    by (simp add: BOARD_SIZE_GROUPS_eq algebra_simps)
  with 2 a show 3: "row * GROUPS_PER_ROW + grp + GROUPS_PER_ROW < BOARD_SIZE_GROUPS"
    by linarith
  show "row * GROUPS_PER_ROW + grp - 1 < BOARD_SIZE_GROUPS"
    using 3 by simp
qed

theorem advance_accesses_in_bounds_witness:
  "length (replicate BOARD_SIZE_GROUPS (0 :: u64)) = BOARD_SIZE_GROUPS
   \<and> BOARD_SIZE_GROUPS = 132354
   \<and> (\<exists>board'. advance R GROUPS_PER_ROW (replicate BOARD_SIZE_GROUPS 0) = Some board'
         \<and> length board' = BOARD_SIZE_GROUPS)"
proof -
  have l: "length (replicate BOARD_SIZE_GROUPS (0 :: u64)) = BOARD_SIZE_GROUPS"
    by simp
  have "BOARD_SIZE_GROUPS = 132354"
    by (simp add: BOARD_SIZE_GROUPS_def GROUPS_PER_ROW_def R_def C_def CELLS_PER_GROUP_def
        GROUP_BIT_SIZE_def)
  then show ?thesis
    using advance_accesses_in_bounds [OF l] l by blast
qed

section \<open>Bounds on the lanes of sums\<close>

lemma updated_word_and_TOP:
  "(push_bit 1 (p AND LOW_BIT_NYBBLE_BITMASK) OR (n AND LOW_BIT_NYBBLE_BITMASK))
     AND TOP_NYBBLET_BITTMASK = 0"
proof (rule bit_word_eqI)
  fix m :: nat
  have "\<not> (m mod 4 = 0 \<and> 2 \<le> m mod 4)" "\<not> (m mod 4 = 1 \<and> 2 \<le> m mod 4)"
    by linarith+
  then show "bit ((push_bit 1 (p AND LOW_BIT_NYBBLE_BITMASK) OR (n AND LOW_BIT_NYBBLE_BITMASK))
     AND TOP_NYBBLET_BITTMASK) m = bit (0 :: u64) m"
    unfolding bit_and_iff bit_updated_word bit_TOP by auto
qed

lemma new_group_and_TOP: "new_group gpr b rsi g AND TOP_NYBBLET_BITTMASK = 0"
  unfolding new_group_def Let_def by (rule updated_word_and_TOP)

lemma lanes_ok_nth: "lanes_ok b \<longleftrightarrow> (\<forall>i<length b. b ! i AND TOP_NYBBLET_BITTMASK = 0)"
  by (simp add: lanes_ok_def all_set_conv_all_nth)

lemma lanes_ok_row_result: "lanes_ok b \<Longrightarrow> lanes_ok (row_result gpr b rsi k)"
  by (simp add: lanes_ok_nth nth_row_result new_group_and_TOP)

lemma lanes_ok_rows_done: "lanes_ok b \<Longrightarrow> lanes_ok (rows_done gpr b k)"
  by (induction k) (simp_all add: lanes_ok_row_result del: mult_Suc)

lemma lanes_ok_generations: "lanes_ok b \<Longrightarrow> lanes_ok (generations nr gpr n b)"
  by (induction n arbitrary: b) (simp_all add: lanes_ok_rows_done)

lemma advance_steps_lanes_ok:
  assumes len: "length b = (nr + 2) * gpr" and gpr: "1 \<le> gpr"
    and s: "\<forall>rows\<in>set scheds. set rows \<subseteq> {1..nr}" and ok: "lanes_ok b"
  shows "\<exists>b'. advance_steps gpr scheds b = Some b' \<and> length b' = length b \<and> lanes_ok b'"
  using len gpr s ok by (rule advance_steps_invariant) (rule lanes_ok_row_result)

lemma lane_colsums_le: "lane j (colsums gpr b i) \<le> 3"
  unfolding colsums_def lane_getColSums by simp

lemma lane_self_le_colsums:
  "lane j (b ! i AND LOW_BIT_NYBBLE_BITMASK) \<le> lane j (colsums gpr b i)"
  unfolding colsums_def lane_getColSums lane_and_LOW by simp

lemma lane_createLeft_le:
  assumes "\<And>i. lane i c \<le> 3" and "\<And>i. lane i p \<le> 3"
  shows "lane j (createLeftNeighborsFromColSums c p) \<le> 3"
  using assms by (simp add: lane_createLeft)

lemma lane_createRight_le:
  assumes "\<And>i. lane i c \<le> 3" and "\<And>i. lane i n \<le> 3"
  shows "lane j (createRightNeighborsFromColSums c n) \<le> 3"
  using assms by (simp add: lane_createRight)

lemma lane_assembled:
  assumes c: "\<And>i. lane i c \<le> 3" and p: "\<And>i. lane i p \<le> 3" and n: "\<And>i. lane i n \<le> 3"
  shows "lane j (c + createLeftNeighborsFromColSums c p + createRightNeighborsFromColSums c n) =
     lane j c + lane j (createLeftNeighborsFromColSums c p)
       + lane j (createRightNeighborsFromColSums c n)"
proof -
  have l: "lane i (createLeftNeighborsFromColSums c p) \<le> 3" for i
    using c p by (rule lane_createLeft_le)
  have r: "lane i (createRightNeighborsFromColSums c n) \<le> 3" for i
    using c n by (rule lane_createRight_le)
  have cl: "lane i (c + createLeftNeighborsFromColSums c p) =
      lane i c + lane i (createLeftNeighborsFromColSums c p)" for i
  proof (rule lane_add)
    fix k :: nat
    show "lane k c + lane k (createLeftNeighborsFromColSums c p) < 16"
      using c [of k] l [of k] by simp
  qed
  have "lane j (c + createLeftNeighborsFromColSums c p + createRightNeighborsFromColSums c n) =
      lane j (c + createLeftNeighborsFromColSums c p) + lane j (createRightNeighborsFromColSums c n)"
  proof (rule lane_add)
    fix k :: nat
    show "lane k (c + createLeftNeighborsFromColSums c p)
        + lane k (createRightNeighborsFromColSums c n) < 16"
      using c [of k] l [of k] r [of k] by (simp add: cl)
  qed
  then show ?thesis
    by (simp add: cl)
qed

lemma lane_assembled_le:
  assumes c: "\<And>i. lane i c \<le> 3" and p: "\<And>i. lane i p \<le> 3" and n: "\<And>i. lane i n \<le> 3"
  shows "lane j (c + createLeftNeighborsFromColSums c p + createRightNeighborsFromColSums c n) \<le> 9"
  using lane_assembled [OF assms, of j] c [of j] lane_createLeft_le [OF c p, of j]
    lane_createRight_le [OF c n, of j] by simp

section \<open>Lane bounds\<close>

text \<open>
  Claim C8. On a board of \<open>nr + 2\<close> rows of \<open>gpr\<close> groups whose lanes all have bits 2
  and 3 zero, every board that the program reaches has lanes with bits 2 and 3 zero,
  in whatever order the parallel loop runs the rows: the board after any number of
  calls of \<open>advance\<close> with the rows in increasing order, and the board after any list of
  schedules \<open>scheds\<close>, each a list of rows \<open>1 \<dots> nr\<close> in any order, holding every row
  (a whole step) or some of them (the middle of a step). On any board, every lane of the column sums \<open>getColSumsForGroup\<close>
  returns is at most 3; with previous and next column sums whose lanes are at most 3 (the
  zero sentinel, or column sums), every lane of \<open>curr + left + right\<close> is the sum of the
  three lanes, so nothing is carried into the next lane, and is at most 9; and every
  lane of the self word is at most the lane of the sum, with the lane of the difference
  the difference of the lanes, so nothing is borrowed from the next lane.
\<close>

theorem lane_bound_invariant:
  assumes "length board = (nr + 2) * gpr" and "1 \<le> gpr" and "lanes_ok board"
  shows "(\<exists>board'. advance_reps nr gpr n board = Some board' \<and> lanes_ok board')
    \<and> ((\<forall>rows\<in>set scheds. set rows \<subseteq> {1..nr})
         \<longrightarrow> (\<exists>board'. advance_steps gpr scheds board = Some board' \<and> lanes_ok board'))
    \<and> (\<forall>x i c gv x' p nx.
          getColSumsForGroup gpr x i = Some (c, gv, x') \<and> (\<forall>j. lane j p \<le> 3) \<and> (\<forall>j. lane j nx \<le> 3)
          \<longrightarrow> (\<forall>j. lane j c \<le> 3
                 \<and> lane j (c + createLeftNeighborsFromColSums c p
                              + createRightNeighborsFromColSums c nx)
                     = lane j c + lane j (createLeftNeighborsFromColSums c p)
                         + lane j (createRightNeighborsFromColSums c nx)
                 \<and> lane j (c + createLeftNeighborsFromColSums c p
                              + createRightNeighborsFromColSums c nx) \<le> 9
                 \<and> lane j gv \<le> lane j (c + createLeftNeighborsFromColSums c p
                                            + createRightNeighborsFromColSums c nx)
                 \<and> lane j (c + createLeftNeighborsFromColSums c p
                              + createRightNeighborsFromColSums c nx - gv)
                     = lane j (c + createLeftNeighborsFromColSums c p
                                 + createRightNeighborsFromColSums c nx) - lane j gv))"
proof (intro conjI allI impI)
  show "\<exists>board'. advance_reps nr gpr n board = Some board' \<and> lanes_ok board'"
    using assms by (simp add: advance_reps_Some lanes_ok_generations)
next
  assume "\<forall>rows\<in>set scheds. set rows \<subseteq> {1..nr}"
  with assms(1,2)
  have "\<exists>b'. advance_steps gpr scheds board = Some b' \<and> length b' = length board \<and> lanes_ok b'"
    using assms(3) by (rule advance_steps_lanes_ok)
  then show "\<exists>board'. advance_steps gpr scheds board = Some board' \<and> lanes_ok board'"
    by blast
next
  fix x i c gv x' p nx j
  assume a: "getColSumsForGroup gpr x i = Some (c, gv, x') \<and> (\<forall>j. lane j p \<le> 3)
      \<and> (\<forall>j. lane j nx \<le> 3)"
  then have cg: "c = colsums gpr x i" "gv = x ! i AND LOW_BIT_NYBBLE_BITMASK"
    by (auto simp add: getColSumsForGroup_def load_def Let_def colsums_def
        split: if_splits option.splits)
  have c: "lane k c \<le> 3" for k
    unfolding cg by (rule lane_colsums_le)
  have p: "lane k p \<le> 3" for k
    using a by simp
  have n: "lane k nx \<le> 3" for k
    using a by simp
  let ?s = "c + createLeftNeighborsFromColSums c p + createRightNeighborsFromColSums c nx"
  have s: "lane k ?s = lane k c + lane k (createLeftNeighborsFromColSums c p)
      + lane k (createRightNeighborsFromColSums c nx)" for k
    using c p n by (rule lane_assembled)
  have "lane k gv \<le> lane k c" for k
    unfolding cg by (rule lane_self_le_colsums)
  then have g: "lane k gv \<le> lane k ?s" for k
    unfolding s by (rule trans_le_add1 [OF trans_le_add1])
  show "lane j c \<le> 3"
    by (rule c)
  show "lane j ?s = lane j c + lane j (createLeftNeighborsFromColSums c p)
      + lane j (createRightNeighborsFromColSums c nx)"
    by (rule s)
  show "lane j ?s \<le> 9"
    using c p n by (rule lane_assembled_le)
  show "lane j gv \<le> lane j ?s"
    by (rule g)
  show "lane j (?s - gv) = lane j ?s - lane j gv"
    by (rule lane_sub) (rule g)
qed

theorem lane_bound_invariant_witness:
  "lanes_ok [0, 0, 0x313, 0, 0x121, 0, 0, 0]
   \<and> advance_reps 2 2 1 [0, 0, 0x313, 0, 0x121, 0, 0, 0] = Some [0, 0, 0x323, 0, 0x303, 0, 0, 0]
   \<and> lanes_ok [0, 0, 0x323, 0, 0x303, 0, 0, 0]
   \<and> advance_steps 2 [[2, 1], [2]] [0, 0, 0x313, 0, 0x121, 0, 0, 0]
       = Some [0, 0, 0x232, 0, 0x10, 0, 0, 0]
   \<and> lanes_ok [0, 0, 0x232, 0, 0x10, 0, 0, 0]"
proof -
  have e: "advance_reps 2 2 1 [0, 0, 0x313, 0, 0x121, 0, 0, 0] = Some [0, 0, 0x323, 0, 0x303, 0, 0, 0]"
    by code_simp
  have f: "advance_steps 2 [[2, 1], [2]] [0, 0, 0x313, 0, 0x121, 0, 0, 0]
      = Some [0, 0, 0x232, 0, 0x10, 0, 0, 0]"
    by code_simp
  have l: "length [0, 0, 0x313, 0, 0x121, 0, 0, 0 :: u64] = (2 + 2) * 2" "(1::nat) \<le> 2"
    by simp_all
  have k: "lanes_ok [0, 0, 0x313, 0, 0x121, 0, 0, 0]"
    by (simp add: lanes_ok_def TOP_NYBBLET_BITTMASK_def)
  show ?thesis
    using lane_bound_invariant [OF l k, of 1 "[[2, 1], [2]]"] e f k by simp
qed

section \<open>One step in terms of the generation it starts from\<close>

text \<open>
  When row \<open>r\<close> runs, the rows below are untouched and row \<open>r - 1\<close> has been written:
  its bit 1 is the bit 0 it had when the step started. The border row above row 1 and
  the padding groups are never written; they are zero, so their bit 1 is their bit 0.
\<close>

lemma rows_done_untouched:
  assumes "(k + 1) * gpr \<le> i" and "i < length b"
  shows "rows_done gpr b k ! i = b ! i"
  using assms
proof (induction k)
  case 0
  then show ?case by simp
next
  case (Suc k)
  have "(k + 1) * gpr \<le> i"
    using Suc.prems(1) by simp
  moreover have "\<not> i < Suc k * gpr + (gpr - 1)"
    using Suc.prems(1) by simp
  ultimately show ?case
    using Suc by (simp add: nth_row_result del: mult_Suc)
qed

lemma rows_done_row:
  assumes "1 \<le> r" and "r \<le> k" and "g < gpr - 1" and "r * gpr + g < length b"
  shows "rows_done gpr b k ! (r * gpr + g) = new_group gpr (rows_done gpr b (r - 1)) (r * gpr) g"
  using assms(2)
proof (induction k)
  case 0
  with assms(1) show ?case by simp
next
  case (Suc k)
  show ?case
  proof (cases "r = Suc k")
    case True
    then show ?thesis
      using assms(3,4) by (auto simp add: nth_row_result simp del: mult_Suc)
  next
    case False
    then have rk: "r \<le> k" using Suc.prems by simp
    then have "Suc r * gpr \<le> Suc k * gpr"
      by (intro mult_le_mono1) simp
    then have "r * gpr + g < Suc k * gpr"
      using assms(3) by (simp only: mult_Suc)
    then show ?thesis
      using Suc.IH [OF rk] assms(4) by (simp add: nth_row_result del: mult_Suc)
  qed
qed

lemma zero_and_LOW: "(0 :: u64) AND LOW_BIT_NYBBLE_BITMASK = 0"
  by simp

lemma new_group_prev:
  "drop_bit 1 (new_group gpr b rsi g) AND LOW_BIT_NYBBLE_BITMASK =
     b ! (rsi + g) AND LOW_BIT_NYBBLE_BITMASK"
  unfolding new_group_def Let_def updated_word_prev by (simp add: and.assoc)

lemma colsums_rows_done:
  assumes len: "length b = (nr + 2) * gpr" and gpr: "1 \<le> gpr" and bd: "border_dead nr gpr b"
    and r: "1 \<le> r" "r \<le> nr" and g: "g < gpr"
  shows "colsums gpr (rows_done gpr b (r - 1)) (r * gpr + g) = icolsums gpr b (r * gpr + g)"
proof -
  obtain q where q: "r = Suc q"
    using r(1) by (cases r) simp_all
  have le: "r * gpr \<le> nr * gpr"
    using r(2) by (rule mult_le_mono1)
  have L: "length b = nr * gpr + 2 * gpr"
    using len by (simp add: add_mult_distrib)
  have i: "r * gpr + g < length b" "r * gpr + g + gpr < length b"
    using le g L by linarith+
  have up: "r * gpr + g - gpr = q * gpr + g"
    by (simp add: q)
  have upl: "q * gpr + g < length b"
    using i(1) by (simp add: q)
  have self: "rows_done gpr b (r - 1) ! (r * gpr + g) = b ! (r * gpr + g)"
    using i(1) by (intro rows_done_untouched) (simp_all add: q)
  have bot: "rows_done gpr b (r - 1) ! (r * gpr + g + gpr) = b ! (r * gpr + g + gpr)"
    using i(2) by (intro rows_done_untouched) (simp_all add: q)
  have top: "drop_bit 1 (rows_done gpr b (r - 1) ! (q * gpr + g)) AND LOW_BIT_NYBBLE_BITMASK =
      b ! (q * gpr + g) AND LOW_BIT_NYBBLE_BITMASK"
  proof (cases "q = 0 \<or> g = gpr - 1")
    case True
    then have "is_border nr gpr (q * gpr + g)"
      using g by (auto simp add: is_border_def row_index_mod)
    moreover have "r - 1 \<le> nr"
      using r(2) by simp
    ultimately have "rows_done gpr b (r - 1) ! (q * gpr + g) = b ! (q * gpr + g)"
      "b ! (q * gpr + g) = 0"
      using upl gpr bd by (simp_all add: rows_done_frame [where nr = nr] border_dead_def)
    then show ?thesis
      by simp
  next
    case False
    then have "1 \<le> q" "g < gpr - 1"
      using g by auto
    then have A: "rows_done gpr b q ! (q * gpr + g) = new_group gpr (rows_done gpr b (q - 1)) (q * gpr) g"
      using upl by (intro rows_done_row) simp_all
    have B: "rows_done gpr b (q - 1) ! (q * gpr + g) = b ! (q * gpr + g)"
      using upl \<open>1 \<le> q\<close> by (intro rows_done_untouched) simp_all
    show ?thesis
      by (simp only: q diff_Suc_1 A new_group_prev B)
  qed
  show ?thesis
    unfolding colsums_def icolsums_def up self bot top ..
qed

lemma ideal_group_rows_done:
  assumes len: "length b = (nr + 2) * gpr" and gpr: "1 \<le> gpr" and bd: "border_dead nr gpr b"
    and r: "1 \<le> r" "r \<le> nr" and g: "g < gpr - 1"
  shows "rows_done gpr b nr ! (r * gpr + g) = ideal_group gpr b (r * gpr) g"
proof -
  have le: "r * gpr \<le> nr * gpr"
    using r(2) by (rule mult_le_mono1)
  have L: "length b = nr * gpr + 2 * gpr"
    using len by (simp add: add_mult_distrib)
  have i: "r * gpr + g < length b"
    using le g L by linarith
  have 1: "rows_done gpr b nr ! (r * gpr + g) = new_group gpr (rows_done gpr b (r - 1)) (r * gpr) g"
    using r g i by (intro rows_done_row)
  have self: "rows_done gpr b (r - 1) ! (r * gpr + g) = b ! (r * gpr + g)"
    using i r(1) by (intro rows_done_untouched) simp_all
  have cs: "colsums gpr (rows_done gpr b (r - 1)) (r * gpr + h) = icolsums gpr b (r * gpr + h)"
    if "h < gpr" for h
    using len gpr bd r that by (rule colsums_rows_done)
  have c0: "colsums gpr (rows_done gpr b (r - 1)) (r * gpr + g) = icolsums gpr b (r * gpr + g)"
    using g by (intro cs) simp
  have c1: "colsums gpr (rows_done gpr b (r - 1)) (r * gpr + g + 1) = icolsums gpr b (r * gpr + g + 1)"
    using g cs [of "g + 1"] by (simp add: add.assoc)
  have c2: "colsums gpr (rows_done gpr b (r - 1)) (r * gpr + g - 1) = icolsums gpr b (r * gpr + g - 1)"
    if "g \<noteq> 0"
  proof -
    have "r * gpr + g - 1 = r * gpr + (g - 1)"
      using that by simp
    then show ?thesis
      using g cs [of "g - 1"] by simp
  qed
  show ?thesis
    unfolding 1 new_group_def ideal_group_def self c0 c1
    by (cases "g = 0") (simp_all only: c2 if_True if_False simp_thms)
qed

lemma lane_masked_sum3:
  "lane j ((x AND LOW_BIT_NYBBLE_BITMASK) +
       ((y AND LOW_BIT_NYBBLE_BITMASK) + (z AND LOW_BIT_NYBBLE_BITMASK))) =
     of_bool (bit x (4 * j)) + (of_bool (bit y (4 * j)) + of_bool (bit z (4 * j)))"
proof -
  have "lane j ((x AND LOW_BIT_NYBBLE_BITMASK) +
       ((y AND LOW_BIT_NYBBLE_BITMASK) + (z AND LOW_BIT_NYBBLE_BITMASK))) =
     lane j (x AND LOW_BIT_NYBBLE_BITMASK) +
       (lane j (y AND LOW_BIT_NYBBLE_BITMASK) + lane j (z AND LOW_BIT_NYBBLE_BITMASK))"
  proof (rule lane_add3)
    show "lane i (x AND LOW_BIT_NYBBLE_BITMASK) \<le> 1" for i
      unfolding lane_and_LOW by simp
    show "lane i (y AND LOW_BIT_NYBBLE_BITMASK) \<le> 1" for i
      unfolding lane_and_LOW by simp
    show "lane i (z AND LOW_BIT_NYBBLE_BITMASK) \<le> 1" for i
      unfolding lane_and_LOW by simp
  qed
  then show ?thesis
    by (simp only: lane_and_LOW)
qed

lemma lane_icolsums:
  assumes "1 \<le> r"
  shows "lane j (icolsums gpr b (r * gpr + g)) = lcolcount gpr b r g j"
proof -
  obtain q where q: "r = Suc q"
    using assms by (cases r) simp_all
  have e: "r * gpr + g - gpr = (r - 1) * gpr + g" "r * gpr + g + gpr = (r + 1) * gpr + g"
    by (simp_all add: q)
  show ?thesis
    unfolding icolsums_def lane_masked_sum3 lcolcount_def lcell_def e ..
qed

lemma lane_icolsums_le:
  assumes "1 \<le> r"
  shows "lane j (icolsums gpr b (r * gpr + g)) \<le> 3"
  unfolding lane_icolsums [OF assms] lcolcount_def by simp

lemma bit_lane0: "bit w (4 * j) \<longleftrightarrow> odd (lane j w)"
  unfolding lane_bits [of j w] by simp

lemma bit_ideal_group:
  assumes r: "1 \<le> r" and j: "j < 16"
  shows "bit (ideal_group gpr b (r * gpr) g) (4 * j) \<longleftrightarrow>
     life_rule (lcell gpr b r g j)
       (lcolcount gpr b r g j
        + (if j < 15 then lcolcount gpr b r g (j + 1)
           else if g = 0 then 0 else lcolcount gpr b r (g - 1) 0)
        + (if j = 0 then lcolcount gpr b r (g + 1) 15 else lcolcount gpr b r g (j - 1))
        - of_bool (lcell gpr b r g j))"
proof -
  define self where "self = b ! (r * gpr + g) AND LOW_BIT_NYBBLE_BITMASK"
  define prv where "prv = (if g = 0 then 0 else icolsums gpr b (r * gpr + g - 1))"
  define cur where "cur = icolsums gpr b (r * gpr + g)"
  define nxt where "nxt = icolsums gpr b (r * gpr + g + 1)"
  define S where "S = cur + createLeftNeighborsFromColSums cur prv
      + createRightNeighborsFromColSums cur nxt"
  have lself: "lane i self = of_bool (lcell gpr b r g i)" for i
    unfolding self_def lane_and_LOW lcell_def ..
  have lcur: "lane i cur = lcolcount gpr b r g i" for i
    unfolding cur_def using r by (rule lane_icolsums)
  have lnxt: "lane i nxt = lcolcount gpr b r (g + 1) i" for i
    unfolding nxt_def add.assoc using r by (rule lane_icolsums)
  have lprv: "lane i prv = (if g = 0 then 0 else lcolcount gpr b r (g - 1) i)" for i
  proof (cases "g = 0")
    case True
    then show ?thesis by (simp add: prv_def lane_zero)
  next
    case False
    then have "r * gpr + g - 1 = r * gpr + (g - 1)" by simp
    then show ?thesis
      using False lane_icolsums [OF r, of i gpr b "g - 1"] by (simp add: prv_def)
  qed
  have c3: "lane i cur \<le> 3" for i
    unfolding lcur lcolcount_def by simp
  have n3: "lane i nxt \<le> 3" for i
    unfolding lnxt lcolcount_def by simp
  have p3: "lane i prv \<le> 3" for i
    unfolding lprv lcolcount_def by simp
  have lS: "lane i S = lane i cur + lane i (createLeftNeighborsFromColSums cur prv)
      + lane i (createRightNeighborsFromColSums cur nxt)" for i
    unfolding S_def using c3 p3 n3 by (rule lane_assembled)
  have "lane i self \<le> lane i cur" for i
    unfolding lself lcur lcolcount_def by simp
  then have le: "lane i self \<le> lane i S" for i
    unfolding lS by (rule trans_le_add1 [OF trans_le_add1])
  have sub: "lane j (S - self) = lane j S - lane j self"
    by (rule lane_sub) (rule le)
  have s1: "lane j self \<le> 1"
    unfolding lself by simp
  have "bit (ideal_group gpr b (r * gpr) g) (4 * j) \<longleftrightarrow>
      bit (neighborSumToStateBit S self) (4 * j)"
    unfolding ideal_group_def Let_def next_state_def bit_updated_word
      self_def [symmetric] prv_def [symmetric] cur_def [symmetric] nxt_def [symmetric]
      S_def [symmetric]
    by simp
  also have "\<dots> \<longleftrightarrow> lane j ((S - self) OR self) = 3"
    unfolding bit_lane0 lane_neighborSumToStateBit using j by simp
  also have "\<dots> \<longleftrightarrow> lane j S - lane j self = 3 \<or> (lane j S - lane j self = 2 \<and> lane j self = 1)"
    unfolding lane_or_self [OF s1] sub ..
  also have "\<dots> \<longleftrightarrow> life_rule (lcell gpr b r g j) (lane j S - lane j self)"
    unfolding life_rule_def lself by auto
  finally show ?thesis
    unfolding lS lane_createLeft lane_createRight lcur lprv lnxt lself
    using j by (simp cong: if_cong)
qed

section \<open>Cells, columns and the grid\<close>

lemma cell_lcell: "k < 16 \<Longrightarrow> alive_cell gpr b r (16 * g + k) = lcell gpr b r g (15 - k)"
  by (simp add: alive_cell_def lcell_def)

lemma colcount_lcolcount:
  "k < 16 \<Longrightarrow> colcount gpr b r (16 * g + k) = lcolcount gpr b r g (15 - k)"
  by (simp only: colcount_def lcolcount_def cell_lcell)

lemma cell_border:
  assumes len: "length b = (nr + 2) * gpr" and gpr: "1 \<le> gpr" and bd: "border_dead nr gpr b"
    and r: "r \<le> nr + 1" and c: "c < 16 * gpr"
    and e: "r = 0 \<or> r = nr + 1 \<or> 16 * (gpr - 1) \<le> c"
  shows "\<not> alive_cell gpr b r c"
proof -
  define g where "g = c div 16"
  have g: "g < gpr"
    using c by (simp add: g_def div_less_iff_less_mult)
  have "r * gpr \<le> (nr + 1) * gpr"
    using r by (rule mult_le_mono1)
  moreover have L: "length b = (nr + 1) * gpr + gpr"
    using len by (simp add: add_mult_distrib)
  ultimately have i: "r * gpr + g < length b"
    using g by linarith
  have "is_border nr gpr (r * gpr + g)"
  proof -
    consider "r = 0" | "r = nr + 1" | "16 * (gpr - 1) \<le> c"
      using e by blast
    then show ?thesis
    proof cases
      case 1
      then show ?thesis using g by (simp add: is_border_def)
    next
      case 2
      then show ?thesis by (simp add: is_border_def)
    next
      case 3
      then have "gpr - 1 \<le> g"
        unfolding g_def by (simp add: less_eq_div_iff_mult_less_eq mult.commute)
      then have "g = gpr - 1"
        using g by simp
      then have "(r * gpr + g) mod gpr = gpr - 1"
        using g row_index_mod [of g gpr r] by simp
      then show ?thesis
        by (simp add: is_border_def)
    qed
  qed
  then have "b ! (r * gpr + g) = 0"
    using bd i by (simp add: border_dead_def)
  then show ?thesis
    by (simp add: alive_cell_def g_def)
qed

lemma length_grid_of [simp]: "length (grid_of nr gpr b) = nr"
  by (simp add: grid_of_def)

lemma length_grid_of_row [simp]: "r < nr \<Longrightarrow> length (grid_of nr gpr b ! r) = 16 * (gpr - 1)"
  by (simp add: grid_of_def)

lemma nth_grid_of:
  "r < nr \<Longrightarrow> c < 16 * (gpr - 1) \<Longrightarrow> grid_of nr gpr b ! r ! c = alive_cell gpr b (r + 1) c"
  by (simp add: grid_of_def)

lemma alive_at_grid_of:
  assumes len: "length b = (nr + 2) * gpr" and gpr: "1 \<le> gpr" and bd: "border_dead nr gpr b"
    and i: "- 1 \<le> i" "i \<le> int nr" and j: "j \<le> int (16 * (gpr - 1))"
  shows "alive_at (grid_of nr gpr b) i j \<longleftrightarrow> 0 \<le> j \<and> alive_cell gpr b (nat (i + 1)) (nat j)"
proof (cases "0 \<le> i \<and> i < int nr \<and> 0 \<le> j \<and> j < int (16 * (gpr - 1))")
  case True
  then have "nat i < nr" "nat j < 16 * (gpr - 1)" "nat (i + 1) = nat i + 1"
    by auto
  then show ?thesis
    using True by (simp add: alive_at_def nth_grid_of)
next
  case False
  have "\<not> alive_at (grid_of nr gpr b) i j"
    using False by (auto simp add: alive_at_def)
  moreover have "\<not> alive_cell gpr b (nat (i + 1)) (nat j)" if "0 \<le> j"
  proof (rule cell_border [OF len gpr bd])
    show "nat (i + 1) \<le> nr + 1"
      using i by simp
    show "nat j < 16 * gpr"
      using j gpr that by auto
    show "nat (i + 1) = 0 \<or> nat (i + 1) = nr + 1 \<or> 16 * (gpr - 1) \<le> nat j"
      using False i j that by auto
  qed
  ultimately show ?thesis
    by blast
qed

lemma cell_rows_done:
  assumes len: "length b = (nr + 2) * gpr" and gpr: "1 \<le> gpr" and bd: "border_dead nr gpr b"
    and r: "1 \<le> r" "r \<le> nr" and c: "c < 16 * (gpr - 1)"
  shows "alive_cell gpr (rows_done gpr b nr) r c \<longleftrightarrow>
     life_rule (alive_cell gpr b r c)
       (colcount gpr b r c + (if c = 0 then 0 else colcount gpr b r (c - 1))
          + colcount gpr b r (c + 1) - of_bool (alive_cell gpr b r c))"
proof -
  define g where "g = c div 16"
  define k where "k = c mod 16"
  define j where "j = 15 - k"
  have k: "k < 16" by (simp add: k_def)
  have j: "j < 16" by (simp add: j_def)
  have cd: "c = 16 * g + k" by (simp add: g_def k_def)
  have g: "g < gpr - 1"
    using c by (simp add: g_def div_less_iff_less_mult)
  have cl: "alive_cell gpr x r c = lcell gpr x r g j" for x
    unfolding cd j_def using k by (rule cell_lcell)
  have cc: "colcount gpr b r c = lcolcount gpr b r g j"
    unfolding cd j_def using k by (rule colcount_lcolcount)
  have left: "(if c = 0 then 0 else colcount gpr b r (c - 1)) =
      (if j < 15 then lcolcount gpr b r g (j + 1)
       else if g = 0 then 0 else lcolcount gpr b r (g - 1) 0)"
  proof (cases "k = 0")
    case True
    show ?thesis
    proof (cases "g = 0")
      case True
      with \<open>k = 0\<close> show ?thesis by (simp add: cd j_def)
    next
      case False
      then have "c - 1 = 16 * (g - 1) + 15"
        using \<open>k = 0\<close> by (simp add: cd)
      then have "colcount gpr b r (c - 1) = lcolcount gpr b r (g - 1) 0"
        using colcount_lcolcount [of 15 gpr b r "g - 1"] by simp
      then show ?thesis
        using False \<open>k = 0\<close> by (simp add: cd j_def)
    qed
  next
    case False
    then have "c - 1 = 16 * g + (k - 1)" "k - 1 < 16" "15 - (k - 1) = j + 1"
      using k by (simp_all add: cd j_def)
    then have "colcount gpr b r (c - 1) = lcolcount gpr b r g (j + 1)"
      using colcount_lcolcount [of "k - 1" gpr b r g] by simp
    then show ?thesis
      using False k by (simp add: cd j_def)
  qed
  have right: "colcount gpr b r (c + 1) =
      (if j = 0 then lcolcount gpr b r (g + 1) 15 else lcolcount gpr b r g (j - 1))"
  proof (cases "k = 15")
    case True
    then have "c + 1 = 16 * (g + 1) + 0"
      by (simp add: cd)
    then have "colcount gpr b r (c + 1) = lcolcount gpr b r (g + 1) 15"
      using colcount_lcolcount [of 0 gpr b r "g + 1"] by simp
    then show ?thesis
      using True by (simp add: j_def)
  next
    case False
    then have "c + 1 = 16 * g + (k + 1)" "k + 1 < 16" "15 - (k + 1) = j - 1" "j \<noteq> 0"
      using k by (simp_all add: cd j_def)
    then show ?thesis
      using colcount_lcolcount [of "k + 1" gpr b r g] by simp
  qed
  have "alive_cell gpr (rows_done gpr b nr) r c \<longleftrightarrow> bit (rows_done gpr b nr ! (r * gpr + g)) (4 * j)"
    unfolding cl lcell_def ..
  also have "\<dots> \<longleftrightarrow> bit (ideal_group gpr b (r * gpr) g) (4 * j)"
    using ideal_group_rows_done [OF len gpr bd r g] by simp
  finally show ?thesis
    unfolding bit_ideal_group [OF r(1) j] cl cc left right .
qed

lemma length_filter_sum: "length (filter P xs) = (\<Sum>x\<leftarrow>xs. of_bool (P x))"
  by (induction xs) simp_all

lemma live_neighbours_grid_of:
  assumes len: "length b = (nr + 2) * gpr" and gpr: "1 \<le> gpr" and bd: "border_dead nr gpr b"
    and r: "r < nr" and c: "c < 16 * (gpr - 1)"
  shows "live_neighbours (grid_of nr gpr b) (int r) (int c) =
     colcount gpr b (r + 1) c + (if c = 0 then 0 else colcount gpr b (r + 1) (c - 1))
       + colcount gpr b (r + 1) (c + 1) - of_bool (alive_cell gpr b (r + 1) c)"
proof -
  let ?G = "grid_of nr gpr b"
  have a: "alive_at ?G (int r + dr) (int c + dc) \<longleftrightarrow>
      0 \<le> int c + dc \<and> alive_cell gpr b (nat (int r + dr + 1)) (nat (int c + dc))"
    if "- 1 \<le> dr" "dr \<le> 1" "dc \<le> 1" for dr dc
  proof (rule alive_at_grid_of [OF len gpr bd])
    show "- 1 \<le> int r + dr" "int r + dr \<le> int nr" "int c + dc \<le> int (16 * (gpr - 1))"
      using that r c by auto
  qed
  have ul: "alive_at ?G (int r + - 1) (int c + - 1) \<longleftrightarrow> c \<noteq> 0 \<and> alive_cell gpr b r (c - 1)"
    using a [of "- 1" "- 1"] by (simp add: nat_diff_distrib')
  have um: "alive_at ?G (int r + - 1) (int c + 0) \<longleftrightarrow> alive_cell gpr b r c"
    using a [of "- 1" 0] by simp
  have ur: "alive_at ?G (int r + - 1) (int c + 1) \<longleftrightarrow> alive_cell gpr b r (c + 1)"
    using a [of "- 1" 1] by (simp add: nat_add_distrib)
  have ml: "alive_at ?G (int r + 0) (int c + - 1) \<longleftrightarrow> c \<noteq> 0 \<and> alive_cell gpr b (r + 1) (c - 1)"
    using a [of 0 "- 1"] by (simp add: nat_diff_distrib' nat_add_distrib)
  have mr: "alive_at ?G (int r + 0) (int c + 1) \<longleftrightarrow> alive_cell gpr b (r + 1) (c + 1)"
    using a [of 0 1] by (simp add: nat_add_distrib)
  have ll: "alive_at ?G (int r + 1) (int c + - 1) \<longleftrightarrow> c \<noteq> 0 \<and> alive_cell gpr b (r + 2) (c - 1)"
    using a [of 1 "- 1"] by (simp add: nat_diff_distrib' nat_add_distrib)
  have lm: "alive_at ?G (int r + 1) (int c + 0) \<longleftrightarrow> alive_cell gpr b (r + 2) c"
    using a [of 1 0] by (simp add: nat_add_distrib)
  have lr: "alive_at ?G (int r + 1) (int c + 1) \<longleftrightarrow> alive_cell gpr b (r + 2) (c + 1)"
    using a [of 1 1] by (simp add: nat_add_distrib)
  have "live_neighbours ?G (int r) (int c) =
      of_bool (c \<noteq> 0 \<and> alive_cell gpr b r (c - 1)) + (of_bool (alive_cell gpr b r c)
      + (of_bool (alive_cell gpr b r (c + 1)) + (of_bool (c \<noteq> 0 \<and> alive_cell gpr b (r + 1) (c - 1))
      + (of_bool (alive_cell gpr b (r + 1) (c + 1)) + (of_bool (c \<noteq> 0 \<and> alive_cell gpr b (r + 2) (c - 1))
      + (of_bool (alive_cell gpr b (r + 2) c) + of_bool (alive_cell gpr b (r + 2) (c + 1))))))))"
    unfolding live_neighbours_def length_filter_sum
    by (simp only: list.map sum_list.Cons sum_list.Nil prod.case ul um ur ml mr ll lm lr
        add_0_right [where 'a = nat])
  also have "\<dots> = colcount gpr b (r + 1) c + (if c = 0 then 0 else colcount gpr b (r + 1) (c - 1))
       + colcount gpr b (r + 1) (c + 1) - of_bool (alive_cell gpr b (r + 1) c)"
  proof -
    have e: "r + 1 - 1 = r" "r + 1 + 1 = r + 2"
      by simp_all
    show ?thesis
    proof (cases "c = 0")
      case True
      have z: "of_bool (c \<noteq> 0 \<and> X) = (0::nat)" for X
        using True by simp
      show ?thesis
        unfolding colcount_def e z if_P [OF True] by linarith
    next
      case False
      have z: "of_bool (c \<noteq> 0 \<and> X) = (of_bool X :: nat)" for X
        using False by simp
      show ?thesis
        unfolding colcount_def e z if_not_P [OF False] by linarith
    qed
  qed
  finally show ?thesis .
qed

lemma grid_of_rows_done:
  assumes len: "length b = (nr + 2) * gpr" and gpr: "1 \<le> gpr" and bd: "border_dead nr gpr b"
  shows "grid_of nr gpr (rows_done gpr b nr) = reference_step (grid_of nr gpr b)"
proof (rule nth_equalityI)
  show "length (grid_of nr gpr (rows_done gpr b nr)) = length (reference_step (grid_of nr gpr b))"
    by (simp add: reference_step_def)
next
  fix r
  assume "r < length (grid_of nr gpr (rows_done gpr b nr))"
  then have r: "r < nr" by simp
  show "grid_of nr gpr (rows_done gpr b nr) ! r = reference_step (grid_of nr gpr b) ! r"
  proof (rule nth_equalityI)
    show "length (grid_of nr gpr (rows_done gpr b nr) ! r) =
        length (reference_step (grid_of nr gpr b) ! r)"
      using r by (simp add: reference_step_def)
  next
    fix c
    assume "c < length (grid_of nr gpr (rows_done gpr b nr) ! r)"
    then have c: "c < 16 * (gpr - 1)"
      using r by simp
    have "grid_of nr gpr (rows_done gpr b nr) ! r ! c = alive_cell gpr (rows_done gpr b nr) (r + 1) c"
      using r c by (rule nth_grid_of)
    also have "\<dots> = life_rule (alive_cell gpr b (r + 1) c)
        (live_neighbours (grid_of nr gpr b) (int r) (int c))"
      unfolding live_neighbours_grid_of [OF len gpr bd r c]
      using r c by (intro cell_rows_done [OF len gpr bd]) simp_all
    also have "\<dots> = reference_step (grid_of nr gpr b) ! r ! c"
      using r c by (simp add: reference_step_def nth_grid_of)
    finally show "grid_of nr gpr (rows_done gpr b nr) ! r ! c =
        reference_step (grid_of nr gpr b) ! r ! c" .
  qed
qed

lemma grid_of_generations:
  assumes len: "length b = (nr + 2) * gpr" and gpr: "1 \<le> gpr" and bd: "border_dead nr gpr b"
  shows "grid_of nr gpr (generations nr gpr n b) = (reference_step ^^ n) (grid_of nr gpr b)"
  using len bd
proof (induction n arbitrary: b)
  case 0
  then show ?case by simp
next
  case (Suc n)
  have "grid_of nr gpr (generations nr gpr n (rows_done gpr b nr)) =
      (reference_step ^^ n) (grid_of nr gpr (rows_done gpr b nr))"
    using Suc.prems gpr by (intro Suc.IH) (simp_all add: border_dead_rows_done)
  then show ?case
    using Suc.prems gpr by (simp add: grid_of_rows_done funpow_swap1)
qed

section \<open>Equivalence to the reference simulation\<close>

text \<open>
  Claim C1. Take a board of \<open>nr + 2\<close> rows of \<open>gpr\<close> groups whose border rows and padding
  groups are zero (the boards \<^verbatim>\<open>main\<close> builds, and \<open>advance\<close> keeps them so). For every
  number of steps \<open>n\<close>, calling \<open>advance\<close> \<open>n\<close> times, each call running the rows
  \<open>1 \<dots> nr\<close> one after the other in increasing order, returns a board whose grid of
  bit-0 values of the interior lanes is the grid that \<open>n\<close> steps of the reference
  simulation compute from the grid of the initial board. The reference simulation
  \<open>reference_step\<close> builds a new grid from the old one, cell by cell, by the textbook
  rule, counting the eight neighbours with everything outside the grid dead.
\<close>

theorem advance_matches_reference:
  assumes "length board = (nr + 2) * gpr" and "1 \<le> gpr" and "border_dead nr gpr board"
  shows "\<exists>board'. advance_reps nr gpr n board = Some board'
           \<and> grid_of nr gpr board' = (reference_step ^^ n) (grid_of nr gpr board)"
  using assms by (simp add: advance_reps_Some grid_of_generations)

theorem advance_matches_reference_witness:
  "border_dead 3 2 [0, 0, 0x10, 0, 0x10, 0, 0x10, 0, 0, 0]
   \<and> advance_reps 3 2 2 [0, 0, 0x10, 0, 0x10, 0, 0x10, 0, 0, 0]
        = Some [0, 0, 0x10, 0, 0x232, 0, 0x10, 0, 0, 0]
   \<and> grid_of 3 2 [0, 0, 0x10, 0, 0x232, 0, 0x10, 0, 0, 0]
        = (reference_step ^^ 2) (grid_of 3 2 [0, 0, 0x10, 0, 0x10, 0, 0x10, 0, 0, 0])
   \<and> advance_reps 3 2 1 [0, 0, 0x10, 0, 0x10, 0, 0x10, 0, 0, 0]
        = Some [0, 0, 0x20, 0, 0x131, 0, 0x20, 0, 0, 0]
   \<and> grid_of 3 2 [0, 0, 0x20, 0, 0x131, 0, 0x20, 0, 0, 0]
        = reference_step (grid_of 3 2 [0, 0, 0x10, 0, 0x10, 0, 0x10, 0, 0, 0])
   \<and> map (filter (\<lambda>c. reference_step (grid_of 3 2 [0, 0, 0x10, 0, 0x10, 0, 0x10, 0, 0, 0]) ! 1 ! c))
         [[0..<16]] = [[13, 14, 15]]
   \<and> map (\<lambda>r. filter (\<lambda>c. grid_of 3 2 [0, 0, 0x10, 0, 0x10, 0, 0x10, 0, 0, 0] ! r ! c) [0..<16])
         [0, 1, 2] = [[14], [14], [14]]"
proof -
  let ?b = "[0, 0, 0x10, 0, 0x10, 0, 0x10, 0, 0, 0] :: board"
  have l: "length ?b = (3 + 2) * 2" "(1::nat) \<le> 2"
    by simp_all
  have d: "border_dead 3 2 ?b"
    by code_simp
  have e2: "advance_reps 3 2 2 ?b = Some [0, 0, 0x10, 0, 0x232, 0, 0x10, 0, 0, 0]"
    by code_simp
  have e1: "advance_reps 3 2 1 ?b = Some [0, 0, 0x20, 0, 0x131, 0, 0x20, 0, 0, 0]"
    by code_simp
  have r: "map (filter (\<lambda>c. reference_step (grid_of 3 2 ?b) ! 1 ! c)) [[0..<16]] = [[13, 14, 15]]"
    by code_simp
  have g: "map (\<lambda>r. filter (\<lambda>c. grid_of 3 2 ?b ! r ! c) [0..<16]) [0, 1, 2] = [[14], [14], [14]]"
    by code_simp
  have "grid_of 3 2 [0, 0, 0x10, 0, 0x232, 0, 0x10, 0, 0, 0] = (reference_step ^^ 2) (grid_of 3 2 ?b)"
    using advance_matches_reference [OF l d, of 2] e2 by simp
  moreover have "grid_of 3 2 [0, 0, 0x20, 0, 0x131, 0, 0x20, 0, 0, 0] = reference_step (grid_of 3 2 ?b)"
    using advance_matches_reference [OF l d, of 1] e1 by simp
  ultimately show ?thesis
    using d e1 e2 r g by (intro conjI)
qed

section \<open>Rows run in another order\<close>

text \<open>
  Claim C2. The claim is that one step gives the same next generation whatever the
  order in which \<^verbatim>\<open>#pragma omp parallel for\<close> runs the rows. The code does not: on the
  board of two interior rows with three live cells side by side in row 1, running row 1
  and then row 2 (the sequential order) gives a birth in row 2, below the middle cell;
  running row 2 to its end before row 1, as a second thread of the parallel loop can, gives no
  birth there, since \<open>getColSumsForGroup\<close> reads bit 1 of row 1, which row 1 has not yet
  written.
\<close>

theorem parallel_rows_order_matters:
  "advance 2 2 [0, 0, 0x111, 0, 0, 0, 0, 0] = Some [0, 0, 0x232, 0, 0x10, 0, 0, 0]
   \<and> advance_schedule 2 [1, 2] [0, 0, 0x111, 0, 0, 0, 0, 0] = Some [0, 0, 0x232, 0, 0x10, 0, 0, 0]
   \<and> advance_schedule 2 [2, 1] [0, 0, 0x111, 0, 0, 0, 0, 0] = Some [0, 0, 0x232, 0, 0, 0, 0, 0]
   \<and> grid_of 2 2 [0, 0, 0x232, 0, 0x10, 0, 0, 0] \<noteq> grid_of 2 2 [0, 0, 0x232, 0, 0, 0, 0, 0]"
  by code_simp

section \<open>The initial board keeps the invariants\<close>

lemma low_only_iff: "low_only w \<longleftrightarrow> (\<forall>n. bit w n \<longrightarrow> n mod 4 = 0)"
proof
  assume "low_only w"
  then have "bit w n = bit (w AND LOW_BIT_NYBBLE_BITMASK) n" for n
    by (simp add: low_only_def)
  then have "bit w n \<longleftrightarrow> bit w n \<and> n < 64 \<and> n mod 4 = 0" for n
    by (simp only: bit_and_iff bit_LOW)
  then show "\<forall>n. bit w n \<longrightarrow> n mod 4 = 0"
    by blast
next
  assume a: "\<forall>n. bit w n \<longrightarrow> n mod 4 = 0"
  show "low_only w"
    unfolding low_only_def
  proof (rule bit_word_eqI)
    fix n
    show "bit (w AND LOW_BIT_NYBBLE_BITMASK) n = bit w n"
      using a by (auto simp add: bit_and_iff bit_LOW dest: bit_imp_le_length)
  qed
qed

lemma low_only_0 [simp]: "low_only 0"
  by (simp add: low_only_def)

lemma low_only_step:
  assumes "low_only w"
  shows "low_only (push_bit 4 w OR of_bool P)"
  unfolding low_only_iff
proof (intro allI impI)
  fix n
  assume "bit (push_bit 4 w OR of_bool P) n"
  then consider "4 \<le> n" "bit w (n - 4)" | "n = 0"
    by (auto simp add: bit_or_iff bit_push_bit_iff bit_of_bool_iff)
  then show "n mod 4 = 0"
  proof cases
    case 1
    then have "(n - 4) mod 4 = 0"
      using assms by (simp add: low_only_iff)
    with 1(1) show ?thesis
      by presburger
  next
    case 2
    then show ?thesis by simp
  qed
qed

lemma init_cells_low_only:
  "low_only groupValue \<Longrightarrow> low_only (fst (init_cells rnd cell k groupValue))"
proof (induction rnd cell k groupValue rule: init_cells.induct)
  case (1 rnd cell k groupValue)
  show ?case
  proof (cases "cell < CELLS_PER_GROUP")
    case True
    then show ?thesis
      using 1 by (subst init_cells.simps) (simp add: low_only_step)
  next
    case False
    then show ?thesis
      using 1 by (subst init_cells.simps) simp
  qed
qed

lemma init_inv_update:
  assumes "init_inv nr gpr board" and "low_only v" and "\<not> is_border nr gpr i"
  shows "init_inv nr gpr (board[i := v])"
proof -
  have "low_only (board[i := v] ! n)" if "n < length board" for n
    using assms(1,2) that by (cases "i = n") (simp_all add: init_inv_def list_all_length)
  moreover have "board[i := v] ! n = 0" if "n < length board" "is_border nr gpr n" for n
  proof -
    have "n \<noteq> i"
      using that(2) assms(3) by blast
    then show ?thesis
      using assms(1) that by (simp add: init_inv_def border_dead_def)
  qed
  ultimately show ?thesis
    using assms(1) by (simp add: init_inv_def border_dead_def list_all_length)
qed

lemma init_cols_inv:
  assumes "1 \<le> row" and "row \<le> nr" and "init_inv nr gpr board"
  shows "\<exists>board' k'. init_cols rnd gpr (row * gpr) col k board = Some (board', k')
           \<and> init_inv nr gpr board'"
  using assms(3)
proof (induction rnd gpr "row * gpr" col k board rule: init_cols.induct)
  case (1 rnd gpr col k board)
  show ?case
  proof (cases "col < gpr - 1")
    case False
    then show ?thesis
      using 1 by (subst init_cols.simps) simp
  next
    case True
    obtain gv k' where c: "init_cells rnd 0 k 0 = (gv, k')"
      by (cases "init_cells rnd 0 k 0")
    have "low_only (fst (init_cells rnd 0 k 0))"
      by (rule init_cells_low_only) (rule low_only_0)
    then have gv: "low_only gv"
      unfolding c by (simp only: fst_conv)
    have i: "\<not> is_border nr gpr (row * gpr + col)" "row * gpr + col < length board"
      using not_border_interior [OF assms(1,2) True] "1.prems" by (simp_all add: init_inv_def)
    then have s: "store board (row * gpr + col) gv = Some (board[row * gpr + col := gv])"
      by (simp add: store_def)
    have "init_inv nr gpr (board[row * gpr + col := gv])"
      using "1.prems" gv i(1) by (rule init_inv_update)
    then have "\<exists>board' k''. init_cols rnd gpr (row * gpr) (col + 1) k' (board[row * gpr + col := gv])
        = Some (board', k'') \<and> init_inv nr gpr board'"
      using True c [symmetric] s by (intro "1.hyps") simp_all
    then show ?thesis
      by (subst init_cols.simps) (simp only: True if_True Let_def c prod.case s option.case)
  qed
qed

lemma init_rows_inv:
  assumes "1 \<le> row" and "init_inv nr gpr board"
  shows "\<exists>board' k'. init_rows rnd nr gpr row k board = Some (board', k') \<and> init_inv nr gpr board'"
  using assms
proof (induction rnd nr gpr row k board rule: init_rows.induct)
  case (1 rnd nr gpr row k board)
  show ?case
  proof (cases "row < nr + 1")
    case False
    then show ?thesis
      using 1 by (subst init_rows.simps) simp
  next
    case True
    then have "row \<le> nr" by simp
    then obtain b1 k1 where c: "init_cols rnd gpr (row * gpr) 0 k board = Some (b1, k1)"
      and i: "init_inv nr gpr b1"
      using init_cols_inv [OF "1.prems"(1) _ "1.prems"(2)] by blast
    have "\<exists>board' k'. init_rows rnd nr gpr (row + 1) k1 b1 = Some (board', k') \<and> init_inv nr gpr board'"
      using True c i by (intro "1.IH" [of "row * gpr"]) simp_all
    then show ?thesis
      by (subst init_rows.simps) (simp only: True if_True Let_def c prod.case option.case)
  qed
qed

lemma init_inv_replicate: "init_inv nr gpr (replicate (gpr * (nr + 2)) 0)"
  by (simp add: init_inv_def border_dead_def list_all_length)

section \<open>Initial board\<close>

text \<open>
  Claim C10. Called with three arguments, \<^verbatim>\<open>main\<close> builds the initial board from the
  values \<^verbatim>\<open>rand()\<close> returns after \<^verbatim>\<open>srand(0)\<close> and from the layout constants, and reads
  none of its arguments for it: any two argument vectors of length three give the same
  board. In that board every word has at most bit 0 of its lanes set, so the history
  bit is zero everywhere, and the border rows and the padding groups are zero.
\<close>

theorem main_init_independent_of_arguments:
  assumes "1 \<le> gpr" and "length argv = 3" and "length argv' = 3"
  shows "\<exists>board. main_init rnd nr gpr argv = Some board \<and> main_init rnd nr gpr argv' = Some board
           \<and> length board = gpr * (nr + 2) \<and> list_all low_only board \<and> border_dead nr gpr board"
proof -
  obtain board k where "init_rows rnd nr gpr 1 0 (replicate (gpr * (nr + 2)) 0) = Some (board, k)"
    and "init_inv nr gpr board"
    using init_rows_inv [OF _ init_inv_replicate, of 1 rnd nr gpr 0] by auto
  then show ?thesis
    using assms(2,3) by (simp add: main_init_def init_inv_def)
qed

theorem main_init_independent_of_arguments_witness:
  "main_init (\<lambda>k. 3 * k) 1 2 [''life'', ''10'', ''0''] = Some [0, 0, 0x1010101010101010, 0, 0, 0]
   \<and> main_init (\<lambda>k. 3 * k) 1 2 [''life'', ''7'', ''1''] = Some [0, 0, 0x1010101010101010, 0, 0, 0]
   \<and> border_dead 1 2 [0, 0, 0x1010101010101010, 0, 0, 0]"
proof -
  have e: "main_init (\<lambda>k. 3 * k) 1 2 [''life'', ''10'', ''0''] = Some [0, 0, 0x1010101010101010, 0, 0, 0]"
    by code_simp
  have l: "(1::nat) \<le> 2" "length [''life'', ''10'', ''0''] = 3" "length [''life'', ''7'', ''1''] = 3"
    by simp_all
  show ?thesis
    using main_init_independent_of_arguments [OF l, of "\<lambda>k. 3 * k" 1] e by auto
qed

section \<open>The program's sizing\<close>

text \<open>
  The results above hold for every number of rows and of groups per row. With the
  constants of the source, the board \<^verbatim>\<open>main\<close> builds has \<open>BOARD_SIZE_GROUPS\<close> words and
  dead borders, and every number of sequential steps on it agrees with the reference
  simulation.
\<close>

corollary main_init_program:
  assumes "main_init rnd R GROUPS_PER_ROW argv = Some board"
  shows "length board = BOARD_SIZE_GROUPS \<and> border_dead R GROUPS_PER_ROW board"
proof -
  obtain b k where "init_rows rnd R GROUPS_PER_ROW 1 0
      (replicate (GROUPS_PER_ROW * (R + 2)) 0) = Some (b, k)" and "init_inv R GROUPS_PER_ROW b"
    using init_rows_inv [OF _ init_inv_replicate, of 1 rnd R GROUPS_PER_ROW 0] by auto
  then show ?thesis
    using assms
    by (auto simp add: main_init_def init_inv_def BOARD_SIZE_GROUPS_def split: if_splits)
qed

corollary advance_matches_reference_program:
  assumes "length board = BOARD_SIZE_GROUPS" and "border_dead R GROUPS_PER_ROW board"
  shows "\<exists>board'. advance_reps R GROUPS_PER_ROW n board = Some board'
           \<and> grid_of R GROUPS_PER_ROW board' =
               (reference_step ^^ n) (grid_of R GROUPS_PER_ROW board)"
  using assms GROUPS_PER_ROW_pos
  by (simp add: advance_reps_Some grid_of_generations BOARD_SIZE_GROUPS_eq)

end
